theory Spec2Isabelle
  imports Complex_Main "HOL-Library.Log_Nat"
begin

section \<open>JavaScript numbers\<close>

text \<open>
  A JavaScript \<open>number\<close> is an IEEE 754 binary64 value. The finite values are modelled by
  the rationals they denote, the three special values by constructors of their own. The
  two zeros are identified: nothing in the weather pipeline divides by a zero or prints
  one, so \<open>-0\<close> and \<open>+0\<close> cannot be told apart there (\<open>===\<close> does not).
\<close>

datatype number = NaN | NegInf | Fin rat | PosInf

definition pow2 :: "int \<Rightarrow> rat" where
  "pow2 e = (if 0 \<le> e then 2 ^ nat e else 1 / 2 ^ nat (- e))"

definition floor_log2 :: "rat \<Rightarrow> int" where
  \<comment> \<open>for \<open>0 < a\<close>: the exponent \<open>e\<close> with \<open>2^e \<le> a < 2^(e+1)\<close>\<close>
  "floor_log2 a =
     (if 1 \<le> a then bitlen \<lfloor>a\<rfloor> - 1 else - bitlen (\<lceil>1 / a\<rceil> - 1))"

definition round_half_even :: "rat \<Rightarrow> int" where
  "round_half_even x =
     (let f = \<lfloor>x\<rfloor>; d = x - of_int f
      in if d < 1 / 2 then f
         else if 1 / 2 < d then f + 1
         else if even f then f else f + 1)"

definition round_double :: "rat \<Rightarrow> number" where
  \<comment> \<open>"the Number value for q": round to nearest, ties to even, on a 53 bit significand
      with exponents from -1074 up; 2^1024 and beyond is an infinity\<close>
  "round_double q =
     (if q = 0 then Fin 0
      else let a = \<bar>q\<bar>;
               sh = max (floor_log2 a - 52) (- 1074);
               r = of_int (round_half_even (a / pow2 sh)) * pow2 sh
           in if 2 ^ 1024 \<le> r then (if q < 0 then NegInf else PosInf)
              else Fin (if q < 0 then - r else r))"

fun num_add :: "number \<Rightarrow> number \<Rightarrow> number" where
  "num_add NaN y = NaN"
| "num_add x NaN = NaN"
| "num_add PosInf NegInf = NaN"
| "num_add NegInf PosInf = NaN"
| "num_add PosInf y = PosInf"
| "num_add x PosInf = PosInf"
| "num_add NegInf y = NegInf"
| "num_add x NegInf = NegInf"
| "num_add (Fin a) (Fin b) = round_double (a + b)"

fun num_lt :: "number \<Rightarrow> number \<Rightarrow> bool" where
  \<comment> \<open>the operator \<open><\<close>: false as soon as one side is NaN\<close>
  "num_lt NaN y = False"
| "num_lt x NaN = False"
| "num_lt x NegInf = False"
| "num_lt NegInf y = True"
| "num_lt PosInf y = False"
| "num_lt x PosInf = True"
| "num_lt (Fin a) (Fin b) = (a < b)"

definition num_le :: "number \<Rightarrow> number \<Rightarrow> bool" where
  \<comment> \<open>the operator \<open><=\<close>\<close>
  "num_le x y = (x \<noteq> NaN \<and> y \<noteq> NaN \<and> \<not> num_lt y x)"

definition isNaN :: "number \<Rightarrow> bool" where
  "isNaN x = (x = NaN)"

fun div_length :: "number \<Rightarrow> nat \<Rightarrow> number" where
  \<comment> \<open>\<open>x / xs.length\<close>: the divisor is a non-negative integer below 2^32, so it is exact
      and, when zero, the positive zero\<close>
  "div_length NaN n = NaN"
| "div_length PosInf n = PosInf"
| "div_length NegInf n = NegInf"
| "div_length (Fin a) n =
     (if n = 0 then (if a = 0 then NaN else if 0 < a then PosInf else NegInf)
      else round_double (a / of_nat n))"

fun toFixed1 :: "number \<Rightarrow> number" where
  \<comment> \<open>\<open>+x.toFixed(1)\<close>: the decimal string with one fraction digit, read back as a number.
      \<open>toFixed\<close> picks the integer \<open>n\<close> with \<open>n / 10\<close> nearest to \<open>\<bar>x\<bar>\<close>, the larger one of
      two; from 10^21 on, and for the special values, it prints the number itself.\<close>
  "toFixed1 NaN = NaN"
| "toFixed1 PosInf = PosInf"
| "toFixed1 NegInf = NegInf"
| "toFixed1 (Fin x) =
     (if 10 ^ 21 \<le> \<bar>x\<bar> then Fin x
      else let n = \<lfloor>\<bar>x\<bar> * 10 + 1 / 2\<rfloor>
           in if x < 0 then round_double (- (of_int n / 10)) else round_double (of_int n / 10))"

datatype error = TypeError | RangeError

text \<open>
  \<open>Math.min\<close> and \<open>Math.max\<close> go through their arguments from the left, starting from
  \<open>+\<infinity>\<close> and \<open>-\<infinity>\<close>, and return NaN when an argument is NaN. The source spreads an
  array into the arguments of the call, and an engine takes only so many arguments in one
  call: with more, the call raises \<open>RangeError\<close>. The bound is the engine's (it comes from
  the size of its stack); here it is a parameter, \<open>max_args\<close>.
\<close>

fun Math_min_loop :: "number \<Rightarrow> number list \<Rightarrow> number" where
  "Math_min_loop lowest [] = lowest"
| "Math_min_loop lowest (x # xs) =
     (if x = NaN then NaN
      else if num_lt x lowest then Math_min_loop x xs else Math_min_loop lowest xs)"

definition Math_min :: "nat \<Rightarrow> number list \<Rightarrow> error + number" where
  \<comment> \<open>\<open>Math.min(...xs)\<close>\<close>
  "Math_min max_args xs =
     (if max_args < length xs then Inl RangeError else Inr (Math_min_loop PosInf xs))"

fun Math_max_loop :: "number \<Rightarrow> number list \<Rightarrow> number" where
  "Math_max_loop highest [] = highest"
| "Math_max_loop highest (x # xs) =
     (if x = NaN then NaN
      else if num_lt highest x then Math_max_loop x xs else Math_max_loop highest xs)"

definition Math_max :: "nat \<Rightarrow> number list \<Rightarrow> error + number" where
  \<comment> \<open>\<open>Math.max(...xs)\<close>\<close>
  "Math_max max_args xs =
     (if max_args < length xs then Inl RangeError else Inr (Math_max_loop NegInf xs))"

definition reduce_add :: "number list \<Rightarrow> number" where
  \<comment> \<open>\<open>xs.reduce((a, b) => a + b, 0)\<close>\<close>
  "reduce_add xs = foldl num_add (Fin 0) xs"





section \<open>Readings and statistics\<close>

text \<open>
  A \<open>Date\<close> is modelled by its time value, the milliseconds since the epoch. The dates kept
  in a reading are valid ones: the parser drops a line whose date is not. The bounds of a
  time value, 8.64e15 milliseconds either side of the epoch, are not modelled.
\<close>

record WeatherReading =
  timestamp :: int
  temperature :: number
  humidity :: number

record WeatherStats =
  currentTemperature :: number
  currentHumidity :: number
  avgTemperature :: number
  avgHumidity :: number
  minTemperature :: number
  maxTemperature :: number
  minHumidity :: number
  maxHumidity :: number
  totalReadings :: nat
  lastUpdated :: int

datatype DateRange = R24h | R7d | R30d | RAll

subsection \<open>mergeReadings\<close>

text \<open>
  \<open>Array.prototype.sort\<close> is stable, and the comparator of the source, the difference of
  two time values, has the sign of their order: the result is the stable sort by time
  value, \<open>sort_key\<close>.
\<close>

fun unique_filter :: "int set \<Rightarrow> WeatherReading list \<Rightarrow> WeatherReading list" where
  \<comment> \<open>the \<open>filter\<close> callback with its set \<open>seen\<close>, which grows as the list is walked\<close>
  "unique_filter seen [] = []"
| "unique_filter seen (r # rs) =
     (let key = timestamp r
      in if key \<in> seen then unique_filter seen rs
         else r # unique_filter (insert key seen) rs)"

definition mergeReadings :: "WeatherReading list list \<Rightarrow> WeatherReading list" where
  "mergeReadings readingsArrays =
     (let all = concat readingsArrays;
          unique = unique_filter {} all
      in sort_key timestamp unique)"

subsection \<open>computeStats\<close>

definition computeStats :: "nat \<Rightarrow> WeatherReading list \<Rightarrow> error + WeatherStats option" where
  \<comment> \<open>The first argument is the engine's bound on the arguments of a call. The fields of
      the object are worked out in the order they are written: the four before the extrema
      cannot raise, each of the four calls with a spread array can.\<close>
  "computeStats max_args readings =
     (if length readings = 0 then Inr None
      else let temps = map temperature readings;
               humids = map humidity readings;
               latest = readings ! (length readings - 1)
           in case Math_min max_args temps of
                Inl e \<Rightarrow> Inl e
              | Inr minT \<Rightarrow>
                  (case Math_max max_args temps of
                     Inl e \<Rightarrow> Inl e
                   | Inr maxT \<Rightarrow>
                       (case Math_min max_args humids of
                          Inl e \<Rightarrow> Inl e
                        | Inr minH \<Rightarrow>
                            (case Math_max max_args humids of
                               Inl e \<Rightarrow> Inl e
                             | Inr maxH \<Rightarrow>
                                 Inr (Some \<lparr> currentTemperature = temperature latest,
                                   currentHumidity = humidity latest,
                                   avgTemperature =
                                     toFixed1 (div_length (reduce_add temps) (length temps)),
                                   avgHumidity =
                                     toFixed1 (div_length (reduce_add humids) (length humids)),
                                   minTemperature = minT,
                                   maxTemperature = maxT,
                                   minHumidity = minH,
                                   maxHumidity = maxH,
                                   totalReadings = length readings,
                                   lastUpdated = timestamp latest \<rparr>)))))"


subsection \<open>filterByDateRange\<close>

definition msMap :: "DateRange \<Rightarrow> int option" where
  "msMap rng =
     (case rng of
        R24h \<Rightarrow> Some (24 * 60 * 60 * 1000)
      | R7d \<Rightarrow> Some (7 * 24 * 60 * 60 * 1000)
      | R30d \<Rightarrow> Some (30 * 24 * 60 * 60 * 1000)
      | RAll \<Rightarrow> None)"

definition filterByDateRange ::
  "int \<Rightarrow> WeatherReading list \<Rightarrow> DateRange \<Rightarrow> WeatherReading list" where
  \<comment> \<open>The first argument is not a parameter of the source function: it is what the
      ambient clock, \<open>new Date()\<close>, returns when the body reads it. The table has no
      window for \<open>all\<close>: with \<open>undefined\<close> the cutoff would be no date and no reading
      would pass, but the guard before it leaves the lookup to the three windows.\<close>
  "filterByDateRange clock readings rng =
     (if rng = RAll then readings
      else let now = clock
           in case msMap rng of
                None \<Rightarrow> []
              | Some ms \<Rightarrow> (let cutoff = now - ms
                           in filter (\<lambda>r. cutoff \<le> timestamp r) readings))"

section \<open>Strings\<close>

text \<open>
  A string is a list of code units; the model has the code units below 256. White space is
  what \<open>trim\<close> strips and \<open>\s\<close> matches: tab, line feed, vertical tab, form feed, carriage
  return, space and no-break space (the ones beyond 255 are outside the model).
\<close>

definition is_white_space :: "char \<Rightarrow> bool" where
  "is_white_space c =
     (c \<in> set [CHR 0x09, CHR 0x0A, CHR 0x0B, CHR 0x0C, CHR 0x0D, CHR 0x20, CHR 0xA0])"

definition is_digit :: "char \<Rightarrow> bool" where
  \<comment> \<open>\<open>\d\<close>, and a DecimalDigit of a numeric string\<close>
  "is_digit c = (c \<in> set ''0123456789'')"

definition digit_value :: "char \<Rightarrow> nat" where
  "digit_value c = of_char c - of_char CHR ''0''"

definition digits_value :: "string \<Rightarrow> nat" where
  "digits_value ds = foldl (\<lambda>n c. 10 * n + digit_value c) 0 ds"

definition trim :: "string \<Rightarrow> string" where
  "trim s = rev (dropWhile is_white_space (rev (dropWhile is_white_space s)))"

definition to_lower :: "char \<Rightarrow> char" where
  \<comment> \<open>\<open>toLowerCase\<close> on one code unit, as far as a comparison with ASCII letters can
      tell: A to Z go to a to z, and no other code unit goes to an ASCII letter\<close>
  "to_lower c =
     (case map_of (zip ''ABCDEFGHIJKLMNOPQRSTUVWXYZ'' ''abcdefghijklmnopqrstuvwxyz'') c of
        None \<Rightarrow> c
      | Some l \<Rightarrow> l)"

definition toLowerCase :: "string \<Rightarrow> string" where
  "toLowerCase s = map to_lower s"

definition startsWith :: "string \<Rightarrow> string \<Rightarrow> bool" where
  \<comment> \<open>\<open>s.startsWith(p)\<close>\<close>
  "startsWith s p = (take (length p) s = p)"

fun indexOf :: "string \<Rightarrow> char \<Rightarrow> nat option" where
  \<comment> \<open>\<open>s.indexOf(c)\<close>; \<open>None\<close> is -1\<close>
  "indexOf [] c = None"
| "indexOf (x # s) c = (if x = c then Some 0 else map_option Suc (indexOf s c))"

fun replace_crlf :: "string \<Rightarrow> string" where
  \<comment> \<open>\<open>s.replace(/\r\n/g, "\n")\<close>\<close>
  "replace_crlf (a # b # s) =
     (if a = CHR 0x0D \<and> b = CHR 0x0A then CHR 0x0A # replace_crlf s
      else a # replace_crlf (b # s))"
| "replace_crlf s = s"

fun split_lines :: "string \<Rightarrow> string list" where
  \<comment> \<open>\<open>s.split("\n")\<close>: one more piece than there are line feeds\<close>
  "split_lines [] = [[]]"
| "split_lines (c # s) =
     (if c = CHR 0x0A then [] # split_lines s
      else (case split_lines s of
              l # ls \<Rightarrow> (c # l) # ls
            | [] \<Rightarrow> [[c]]))"

definition nth_opt :: "'a list \<Rightarrow> nat \<Rightarrow> 'a option" where
  \<comment> \<open>\<open>xs[i]\<close>; \<open>None\<close> is \<open>undefined\<close>\<close>
  "nth_opt xs i = (if i < length xs then Some (xs ! i) else None)"

subsection \<open>The two patterns\<close>

text \<open>
  Both patterns of the parser have the shape \<open>/label\s*([\d.]+)t/i\<close>: a literal label, any
  white space, a non-empty run of digits and dots (the group), and one closing character.
  The three parts after the label match disjoint sets of characters, so the greedy choice
  is the only one: no shorter run of white space or of digits can match. \<open>match\<close> tries the
  start positions from the left and returns the array of the whole match and the group, or
  \<open>null\<close>.
\<close>

definition canonicalize :: "char \<Rightarrow> char" where
  \<comment> \<open>the case folding of the flag \<open>i\<close>, as far as a pattern of ASCII characters can
      tell: a to z go to A to Z, and no other code unit goes to an ASCII one\<close>
  "canonicalize c =
     (case map_of (zip ''abcdefghijklmnopqrstuvwxyz'' ''ABCDEFGHIJKLMNOPQRSTUVWXYZ'') c of
        None \<Rightarrow> c
      | Some u \<Rightarrow> u)"

fun match_label :: "string \<Rightarrow> string \<Rightarrow> string option" where
  \<comment> \<open>the literal label at the head of the input: what follows it\<close>
  "match_label [] s = Some s"
| "match_label (p # ps) [] = None"
| "match_label (p # ps) (c # s) =
     (if canonicalize c = canonicalize p then match_label ps s else None)"

definition is_num_char :: "char \<Rightarrow> bool" where
  \<comment> \<open>the class \<open>[\d.]\<close>\<close>
  "is_num_char c = (is_digit c \<or> c = CHR ''.'')"

definition match_here :: "string \<Rightarrow> char \<Rightarrow> string \<Rightarrow> string list option" where
  "match_here label t s =
     (case match_label label s of
        None \<Rightarrow> None
      | Some r \<Rightarrow>
          (let r' = dropWhile is_white_space r;
               group = takeWhile is_num_char r';
               rest = dropWhile is_num_char r'
           in case rest of
                [] \<Rightarrow> None
              | c # rest' \<Rightarrow>
                  if group \<noteq> [] \<and> canonicalize c = canonicalize t
                  then Some [take (length s - length rest') s, group]
                  else None))"

fun String_match :: "string \<Rightarrow> string \<Rightarrow> char \<Rightarrow> string list option" where
  \<comment> \<open>\<open>s.match(/label\s*([\d.]+)t/i)\<close>\<close>
  "String_match [] label t = match_here label t []"
| "String_match (c # s) label t =
     (case match_here label t (c # s) of
        Some m \<Rightarrow> Some m
      | None \<Rightarrow> String_match s label t)"

definition pattern_match :: "string \<Rightarrow> char \<Rightarrow> string \<Rightarrow> string \<Rightarrow> string \<Rightarrow> bool" where
  \<comment> \<open>the language of the pattern, to check the matcher against: somewhere in \<open>s\<close> stands
      \<open>w\<close>, made of the label in any case, white space, the group \<open>g\<close> and the closing
      character\<close>
  "pattern_match label t s w g \<longleftrightarrow>
     (\<exists>pre lab ws c post.
        s = pre @ w @ post \<and> w = lab @ ws @ g @ [c] \<and>
        length lab = length label \<and> map canonicalize lab = map canonicalize label \<and>
        (\<forall>x \<in> set ws. is_white_space x) \<and>
        g \<noteq> [] \<and> (\<forall>x \<in> set g. is_num_char x) \<and>
        canonicalize c = canonicalize t)"

subsection \<open>parseFloat\<close>

definition pow10 :: "int \<Rightarrow> rat" where
  "pow10 e = (if 0 \<le> e then 10 ^ nat e else 1 / 10 ^ nat (- e))"

definition exponent_part :: "string \<Rightarrow> int" where
  \<comment> \<open>the exponent of an ExponentPart at the head of the input: e or E, a sign or none,
      and digits; without digits there is no ExponentPart and the exponent is 0\<close>
  "exponent_part s =
     (case s of
        [] \<Rightarrow> 0
      | c # r \<Rightarrow>
          if c = CHR ''e'' \<or> c = CHR ''E'' then
            (case r of
               [] \<Rightarrow> 0
             | d # r' \<Rightarrow>
                 if d = CHR ''-'' then - int (digits_value (takeWhile is_digit r'))
                 else if d = CHR ''+'' then int (digits_value (takeWhile is_digit r'))
                 else int (digits_value (takeWhile is_digit r)))
          else 0)"

definition unsigned_literal :: "string \<Rightarrow> rat option" where
  \<comment> \<open>the mathematical value of the longest prefix that is a decimal literal without
      sign: digits, then a dot and digits, then an exponent; \<open>None\<close> when no prefix is one\<close>
  "unsigned_literal s =
     (let ip = takeWhile is_digit s;
          r1 = dropWhile is_digit s;
          fp = (case r1 of [] \<Rightarrow> [] | c # r \<Rightarrow> if c = CHR ''.'' then takeWhile is_digit r else []);
          r2 = (case r1 of [] \<Rightarrow> [] | c # r \<Rightarrow> if c = CHR ''.'' then dropWhile is_digit r else r1)
      in if ip = [] \<and> fp = [] then None
         else Some (of_nat (digits_value (ip @ fp)) * pow10 (exponent_part r2 - int (length fp))))"

definition parseFloat :: "string \<Rightarrow> number" where
  "parseFloat s =
     (let t = dropWhile is_white_space s;
          neg = (case t of [] \<Rightarrow> False | c # r \<Rightarrow> c = CHR ''-'');
          u = (case t of [] \<Rightarrow> [] | c # r \<Rightarrow> if c = CHR ''-'' \<or> c = CHR ''+'' then r else t)
      in if startsWith u ''Infinity'' then (if neg then NegInf else PosInf)
         else (case unsigned_literal u of
                 None \<Rightarrow> NaN
               | Some mv \<Rightarrow> round_double (if neg then - mv else mv)))"

subsection \<open>parseCSV\<close>

definition group1 :: "string list option \<Rightarrow> error + string option" where
  \<comment> \<open>\<open>m[1]\<close> for the result \<open>m\<close> of a match: reading a property of \<open>null\<close> throws\<close>
  "group1 m = (case m of None \<Rightarrow> Inl TypeError | Some a \<Rightarrow> Inr (nth_opt a 1))"

definition parseFloat_arg :: "string option \<Rightarrow> number" where
  \<comment> \<open>\<open>parseFloat(x)\<close>: \<open>undefined\<close> is read as the string "undefined", not a number\<close>
  "parseFloat_arg x = (case x of None \<Rightarrow> NaN | Some s \<Rightarrow> parseFloat s)"

definition loop_body ::
  "(string \<Rightarrow> int option) \<Rightarrow> string list \<Rightarrow> nat \<Rightarrow> WeatherReading list
     \<Rightarrow> error + WeatherReading list" where
  \<comment> \<open>One round of the loop: the readings after it, or the exception it raises. A
      \<open>continue\<close> leaves the readings as they are. The first argument is the engine's
      \<open>new Date(s).getTime()\<close>, with \<open>None\<close> for NaN.\<close>
  "loop_body Date_parse lines i readings =
     (case nth_opt lines i of
        None \<Rightarrow> Inl TypeError
      | Some l \<Rightarrow>
          (let line = trim l
           in if line = [] then Inr readings
              else if startsWith (toLowerCase line) ''timestamp'' then Inr readings
              else (case indexOf line CHR '','' of
                      None \<Rightarrow> Inr readings
                    | Some commaIndex \<Rightarrow>
                        (let timestampStr = trim (take commaIndex line);
                             rawData = trim (drop (commaIndex + 1) line)
                         in case Date_parse timestampStr of
                              None \<Rightarrow> Inr readings
                            | Some tstamp \<Rightarrow>
                                (let humidityMatch = String_match rawData ''Humidity:'' CHR ''%'';
                                     tempMatch = String_match rawData ''Temp:'' CHR ''C''
                                 in if humidityMatch = None \<or> tempMatch = None then Inr readings
                                    else (case group1 humidityMatch of
                                            Inl e \<Rightarrow> Inl e
                                          | Inr h \<Rightarrow>
                                              (case group1 tempMatch of
                                                 Inl e \<Rightarrow> Inl e
                                               | Inr t \<Rightarrow>
                                                   (let hum = parseFloat_arg h;
                                                        temp = parseFloat_arg t
                                                    in if isNaN hum \<or> isNaN temp
                                                       then Inr readings
                                                       else Inr (readings @
                                                         [\<lparr>timestamp = tstamp,
                                                           temperature = temp,
                                                           humidity = hum\<rparr>])))))))))"

function parse_loop ::
  "(string \<Rightarrow> int option) \<Rightarrow> string list \<Rightarrow> nat \<Rightarrow> WeatherReading list
     \<Rightarrow> error + WeatherReading list" where
  "parse_loop Date_parse lines i readings =
     (if i < length lines then
        (case loop_body Date_parse lines i readings of
           Inl e \<Rightarrow> Inl e
         | Inr readings' \<Rightarrow> parse_loop Date_parse lines (i + 1) readings')
      else Inr readings)"
  by pat_completeness auto
termination
  by (relation "measure (\<lambda>(Date_parse, lines, i, readings). length lines - i)") auto

declare parse_loop.simps [simp del]

definition parseCSV :: "(string \<Rightarrow> int option) \<Rightarrow> string \<Rightarrow> error + WeatherReading list" where
  "parseCSV Date_parse raw =
     (let lines = split_lines (trim (replace_crlf raw))
      in parse_loop Date_parse lines 0 [])"

text \<open>
  What the specification says of one line, as a function of its own to compare the loop
  with: blank lines and a header are ignored; the line is cut at its first comma, the
  timestamp before and the payload after; the line gives a reading when the date parses,
  both patterns match and both numbers are numbers, and nothing otherwise.
\<close>

definition timestamp_field :: "string \<Rightarrow> string" where
  \<comment> \<open>everything before the first comma\<close>
  "timestamp_field line = trim (takeWhile (\<lambda>c. c \<noteq> CHR '','') line)"

definition payload_field :: "string \<Rightarrow> string" where
  \<comment> \<open>everything after the first comma\<close>
  "payload_field line = trim (tl (dropWhile (\<lambda>c. c \<noteq> CHR '','') line))"

definition line_reading :: "(string \<Rightarrow> int option) \<Rightarrow> string \<Rightarrow> WeatherReading option" where
  "line_reading Date_parse l =
     (let line = trim l
      in if line = [] \<or> startsWith (toLowerCase line) ''timestamp'' then None
         else if CHR '','' \<notin> set line then None
         else (case Date_parse (timestamp_field line) of
                 None \<Rightarrow> None
               | Some t \<Rightarrow>
                   (case String_match (payload_field line) ''Humidity:'' CHR ''%'' of
                      None \<Rightarrow> None
                    | Some hm \<Rightarrow>
                        (case String_match (payload_field line) ''Temp:'' CHR ''C'' of
                           None \<Rightarrow> None
                         | Some tm \<Rightarrow>
                             if parseFloat (hm ! 1) = NaN \<or> parseFloat (tm ! 1) = NaN then None
                             else Some \<lparr>timestamp = t, temperature = parseFloat (tm ! 1),
                                        humidity = parseFloat (hm ! 1)\<rparr>))))"

section \<open>Dates\<close>

text \<open>
  The calendar of a time value, as the language standard computes it: days and years are
  counted from the epoch, and the local time is the time value plus the offset of the local
  time zone at that instant. The offset is the engine's; here it is a parameter.
\<close>

definition msPerDay :: int where
  "msPerDay = 86400000"

definition Day :: "int \<Rightarrow> int" where
  "Day t = t div msPerDay"

definition DaysInYear :: "int \<Rightarrow> int" where
  "DaysInYear y =
     (if y mod 4 \<noteq> 0 then 365
      else if y mod 100 \<noteq> 0 then 366
      else if y mod 400 \<noteq> 0 then 365
      else 366)"

definition DayFromYear :: "int \<Rightarrow> int" where
  "DayFromYear y =
     365 * (y - 1970) + (y - 1969) div 4 - (y - 1901) div 100 + (y - 1601) div 400"

definition TimeFromYear :: "int \<Rightarrow> int" where
  "TimeFromYear y = msPerDay * DayFromYear y"

lemma div_pred_bounds:
  fixes a k :: int
  assumes "0 < k"
  shows "(a - 1) div k \<le> a div k" and "a div k \<le> (a - 1) div k + 1"
proof -
  show "(a - 1) div k \<le> a div k"
    using assms by (intro zdiv_mono1) simp_all
  have "a div k \<le> (a - 1 + k) div k"
    using assms by (intro zdiv_mono1) simp_all
  also have "\<dots> = (a - 1) div k + 1"
    using assms by simp
  finally show "a div k \<le> (a - 1) div k + 1" .
qed

lemma DayFromYear_step: "DayFromYear (y - 1) < DayFromYear y"
proof -
  define a b c where "a = (y - 1969) div 4" and "b = (y - 1901) div 100"
    and "c = (y - 1601) div 400"
  define a' b' c' where "a' = (y - 1969 - 1) div 4" and "b' = (y - 1901 - 1) div 100"
    and "c' = (y - 1601 - 1) div 400"
  have 1: "a' \<le> a" unfolding a_def a'_def by (rule div_pred_bounds) simp
  have 2: "b \<le> b' + 1" unfolding b_def b'_def by (rule div_pred_bounds) simp
  have 3: "c' \<le> c" unfolding c_def c'_def by (rule div_pred_bounds) simp
  have "y - 1 - 1969 = y - 1969 - 1" "y - 1 - 1901 = y - 1901 - 1"
    "y - 1 - 1601 = y - 1601 - 1" by simp_all
  then have l: "DayFromYear (y - 1) = 365 * (y - 1 - 1970) + a' - b' + c'"
    unfolding DayFromYear_def a'_def b'_def c'_def by (simp only:)
  have r: "DayFromYear y = 365 * (y - 1970) + a - b + c"
    unfolding DayFromYear_def a_def b_def c_def ..
  have "365 * (y - 1 - 1970) + a' - b' + c' < 365 * (y - 1970) + a - b + c"
    using 1 2 3 by simp
  then show ?thesis by (simp only: l r)
qed

function year_down :: "int \<Rightarrow> int \<Rightarrow> int" where
  \<comment> \<open>the largest year at or below \<open>y\<close> that begins at or before \<open>t\<close>\<close>
  "year_down t y = (if t < TimeFromYear y then year_down t (y - 1) else y)"
  by pat_completeness auto
termination
proof (relation "measure (\<lambda>(t, y). nat (TimeFromYear y - t))")
  show "wf (measure (\<lambda>(t, y). nat (TimeFromYear y - t)))" by simp
next
  fix t y :: int
  assume "t < TimeFromYear y"
  moreover have "TimeFromYear (y - 1) < TimeFromYear y"
    using DayFromYear_step [of y] by (simp add: TimeFromYear_def msPerDay_def)
  ultimately show "((t, y - 1), (t, y)) \<in> measure (\<lambda>(t, y). nat (TimeFromYear y - t))"
    by simp
qed

declare year_down.simps [simp del]

definition YearFromTime :: "int \<Rightarrow> int" where
  \<comment> \<open>the largest \<open>y\<close> with \<open>TimeFromYear y \<le> t\<close>, looked for downwards from a year that
      is not too small: no year has fewer than 365 days or more than 366\<close>
  "YearFromTime t =
     year_down t (1970 + (if 0 \<le> Day t then Day t div 365 else Day t div 366))"

definition InLeapYear :: "int \<Rightarrow> int" where
  "InLeapYear t = (if DaysInYear (YearFromTime t) = 365 then 0 else 1)"

definition DayWithinYear :: "int \<Rightarrow> int" where
  "DayWithinYear t = Day t - DayFromYear (YearFromTime t)"

definition MonthFromTime :: "int \<Rightarrow> int" where
  "MonthFromTime t =
     (let d = DayWithinYear t; l = InLeapYear t
      in if d < 31 then 0
         else if d < 59 + l then 1
         else if d < 90 + l then 2
         else if d < 120 + l then 3
         else if d < 151 + l then 4
         else if d < 181 + l then 5
         else if d < 212 + l then 6
         else if d < 243 + l then 7
         else if d < 273 + l then 8
         else if d < 304 + l then 9
         else if d < 334 + l then 10
         else 11)"

definition DateFromTime :: "int \<Rightarrow> int" where
  "DateFromTime t =
     (let d = DayWithinYear t; l = InLeapYear t; m = MonthFromTime t
      in if m = 0 then d + 1
         else if m = 1 then d - 30
         else if m = 2 then d - 58 - l
         else if m = 3 then d - 89 - l
         else if m = 4 then d - 119 - l
         else if m = 5 then d - 150 - l
         else if m = 6 then d - 180 - l
         else if m = 7 then d - 211 - l
         else if m = 8 then d - 242 - l
         else if m = 9 then d - 272 - l
         else if m = 10 then d - 303 - l
         else d - 333 - l)"

definition MakeTime :: "int \<Rightarrow> int \<Rightarrow> int \<Rightarrow> int \<Rightarrow> int" where
  "MakeTime hour minute sec ms = hour * 3600000 + minute * 60000 + sec * 1000 + ms"

definition MakeDay :: "int \<Rightarrow> int \<Rightarrow> int \<Rightarrow> int" where
  \<comment> \<open>the day number of the given day of the month, counted from the first day of the
      month \<open>month mod 12\<close> of the year \<open>year + month div 12\<close>\<close>
  "MakeDay year month date =
     (let ym = year + month div 12;
          mn = month mod 12;
          l = (if DaysInYear ym = 365 then 0 else 1);
          first = (if mn = 0 then 0
                   else if mn = 1 then 31
                   else if mn = 2 then 59 + l
                   else if mn = 3 then 90 + l
                   else if mn = 4 then 120 + l
                   else if mn = 5 then 151 + l
                   else if mn = 6 then 181 + l
                   else if mn = 7 then 212 + l
                   else if mn = 8 then 243 + l
                   else if mn = 9 then 273 + l
                   else if mn = 10 then 304 + l
                   else 334 + l)
      in DayFromYear ym + first + date - 1)"

definition MakeDate :: "int \<Rightarrow> int \<Rightarrow> int" where
  "MakeDate day time = day * msPerDay + time"

definition LocalTime :: "(int \<Rightarrow> int) \<Rightarrow> int \<Rightarrow> int" where
  "LocalTime LocalTZA t = t + LocalTZA t"

definition getFullYear :: "(int \<Rightarrow> int) \<Rightarrow> int \<Rightarrow> int" where
  "getFullYear LocalTZA t = YearFromTime (LocalTime LocalTZA t)"

definition getMonth :: "(int \<Rightarrow> int) \<Rightarrow> int \<Rightarrow> int" where
  "getMonth LocalTZA t = MonthFromTime (LocalTime LocalTZA t)"

definition getDate :: "(int \<Rightarrow> int) \<Rightarrow> int \<Rightarrow> int" where
  "getDate LocalTZA t = DateFromTime (LocalTime LocalTZA t)"

text \<open>
  \<open>new Date(s)\<close> hands a string to the engine's date parser. The standard fixes the reading
  of its own date-time format only (\<open>YYYY-MM-DDTHH:mm:ss.sssZ\<close> and its prefixes); a weather
  station writes \<open>YYYY-MM-DD HH:MM:SS\<close>, with a space, which the standard leaves to the
  engine. V8, on which the tests of the repository run, and the other engines in use read a
  text of this shape that spells a date of the calendar and a time of the day as that local
  date and time: the time value is the one the standard's \<open>MakeDay\<close>, \<open>MakeTime\<close> and
  \<open>MakeDate\<close> give for the six numbers, less the offset of the local time zone. The model
  has this reading for these texts and leaves every other text to a parameter, \<open>other\<close>.
  The zone is one of a fixed offset \<open>tza\<close> from UTC, in milliseconds, so that the offset is
  the same where the text is read and where the calendar fields are taken.
\<close>

definition DaysInMonth :: "int \<Rightarrow> int \<Rightarrow> int" where
  "DaysInMonth year month =
     (if month = 2 then (if DaysInYear year = 366 then 29 else 28)
      else if month = 4 \<or> month = 6 \<or> month = 9 \<or> month = 11 then 30
      else 31)"

definition number_at :: "string \<Rightarrow> nat \<Rightarrow> nat \<Rightarrow> int" where
  \<comment> \<open>the number written by the \<open>n\<close> digits from position \<open>i\<close> on\<close>
  "number_at s i n = int (digits_value (take n (drop i s)))"

definition date_time_shape :: "string \<Rightarrow> bool" where
  "date_time_shape s =
     (length s = 19 \<and>
      list_all is_digit (take 4 s) \<and> s ! 4 = CHR ''-'' \<and>
      list_all is_digit (take 2 (drop 5 s)) \<and> s ! 7 = CHR ''-'' \<and>
      list_all is_digit (take 2 (drop 8 s)) \<and> s ! 10 = CHR '' '' \<and>
      list_all is_digit (take 2 (drop 11 s)) \<and> s ! 13 = CHR '':'' \<and>
      list_all is_digit (take 2 (drop 14 s)) \<and> s ! 16 = CHR '':'' \<and>
      list_all is_digit (take 2 (drop 17 s)))"

definition engine_Date_parse ::
  "int \<Rightarrow> (string \<Rightarrow> int option) \<Rightarrow> string \<Rightarrow> int option" where
  \<comment> \<open>\<open>new Date(s).getTime()\<close>; \<open>None\<close> is NaN, the time value of an invalid date\<close>
  "engine_Date_parse tza other s =
     (let year = number_at s 0 4; month = number_at s 5 2; date = number_at s 8 2;
          hour = number_at s 11 2; minute = number_at s 14 2; sec = number_at s 17 2
      in if date_time_shape s \<and> 100 \<le> year \<and> 1 \<le> month \<and> month \<le> 12 \<and>
            1 \<le> date \<and> date \<le> DaysInMonth year month \<and>
            hour \<le> 23 \<and> minute \<le> 59 \<and> sec \<le> 59
         then Some (MakeDate (MakeDay year (month - 1) date) (MakeTime hour minute sec 0) - tza)
         else other s)"

definition sample_engine :: "string \<Rightarrow> int option" where
  \<comment> \<open>an engine for the examples: it is in the UTC time zone and knows one text, the
      timestamp of the weather station's sample line; every other text is no date to it\<close>
  "sample_engine s =
     (if s = ''2026-02-08 12:00:21''
      then Some (MakeDate (MakeDay 2026 1 8) (MakeTime 12 0 21 0))
      else None)"

section \<open>Rounding to a double, by certificate\<close>

text \<open>
  A rounding is checked rather than searched: given the binary exponent and the significand,
  what is left are comparisons of rationals.
\<close>

lemma pow2_pos: "0 < pow2 e"
  by (simp add: pow2_def)

lemma pow2_nat: "pow2 (int k) = 2 ^ k"
  by (simp add: pow2_def)

lemma pow2_neg_nat: "pow2 (- int k) = 1 / 2 ^ k"
  by (cases "k = 0") (simp_all add: pow2_def)

lemma bitlen_eqI:
  assumes "2 ^ k \<le> x" "x < 2 ^ Suc k"
  shows "bitlen x = int k + 1"
proof (rule antisym)
  show "bitlen x \<le> int k + 1"
    using assms(2) by (simp add: bitlen_le_iff_power nat_add_distrib)
  show "int k + 1 \<le> bitlen x"
    using assms(1) by (simp add: bitlen_ge_iff_power nat_add_distrib)
qed

lemma floor_log2_eqI:
  assumes lo: "pow2 e \<le> a" and hi: "a < pow2 (e + 1)"
  shows "floor_log2 a = e"
proof (cases "1 \<le> a")
  case True
  have "0 \<le> e"
  proof (rule ccontr)
    assume "\<not> 0 \<le> e"
    then have "e + 1 = - int (nat (- (e + 1)))" by simp
    then have "pow2 (e + 1) = 1 / 2 ^ nat (- (e + 1))" by (metis pow2_neg_nat)
    then have "pow2 (e + 1) \<le> 1" by simp
    with hi True show False by simp
  qed
  then have "e = int (nat e)" by simp
  then obtain k where e: "e = int k" ..
  have "2 ^ k \<le> \<lfloor>a\<rfloor>"
    using lo by (simp add: e pow2_nat le_floor_iff)
  moreover have "\<lfloor>a\<rfloor> < 2 ^ Suc k"
  proof -
    have "pow2 (e + 1) = 2 ^ Suc k" using pow2_nat [of "Suc k"] by (simp add: e add.commute)
    with hi show ?thesis by (simp add: floor_less_iff)
  qed
  ultimately have "bitlen \<lfloor>a\<rfloor> = int k + 1" by (rule bitlen_eqI)
  with True show ?thesis by (simp add: floor_log2_def e)
next
  case False
  have apos: "0 < a" using lo pow2_pos [of e] by simp
  have "e < 0"
  proof (rule ccontr)
    assume "\<not> e < 0"
    then have "1 \<le> pow2 e" by (simp add: pow2_def)
    with lo False show False by simp
  qed
  then have "e = - int (Suc (nat (- e - 1)))" by simp
  then obtain k where e: "e = - int (Suc k)" ..
  have e1: "pow2 (e + 1) = 1 / 2 ^ k" using pow2_neg_nat [of k] by (simp add: e)
  have e0: "pow2 e = 1 / 2 ^ Suc k" using pow2_neg_nat [of "Suc k"] by (simp only: e)
  have "1 / a \<le> 2 ^ Suc k"
    using lo apos unfolding e0 by (simp add: field_simps)
  then have c_le: "\<lceil>1 / a\<rceil> \<le> 2 ^ Suc k"
    by (simp add: ceiling_le_iff)
  have "2 ^ k < 1 / a"
    using hi apos unfolding e1 by (simp add: field_simps)
  then have c_gt: "2 ^ k < \<lceil>1 / a\<rceil>"
    by (simp add: less_ceiling_iff)
  have "bitlen (\<lceil>1 / a\<rceil> - 1) = int k + 1"
    using c_le c_gt by (intro bitlen_eqI) simp_all
  with False show ?thesis by (simp add: floor_log2_def e)
qed

lemma round_half_even_eqI:
  assumes "of_int m - 1 / 2 < x" "x < of_int m + 1 / 2"
  shows "round_half_even x = m"
proof -
  have "\<lfloor>x\<rfloor> = m \<or> \<lfloor>x\<rfloor> = m - 1" using assms by linarith
  then show ?thesis
  proof
    assume f: "\<lfloor>x\<rfloor> = m"
    with assms show ?thesis by (simp add: round_half_even_def Let_def)
  next
    assume f: "\<lfloor>x\<rfloor> = m - 1"
    with assms show ?thesis by (simp add: round_half_even_def Let_def)
  qed
qed

lemma round_double_eqI:
  assumes "pow2 e \<le> q" "q < pow2 (e + 1)"
    and "sh = max (e - 52) (- 1074)"
    and "of_int m - 1 / 2 < q / pow2 sh" "q / pow2 sh < of_int m + 1 / 2"
    and "r = of_int m * pow2 sh" "r < 2 ^ 1024"
  shows "round_double q = Fin r"
proof -
  have qpos: "0 < q" using assms(1) pow2_pos [of e] by simp
  have "floor_log2 q = e" using assms(1,2) by (rule floor_log2_eqI)
  moreover have "round_half_even (q / pow2 sh) = m" using assms(4,5) by (rule round_half_even_eqI)
  ultimately show ?thesis
    using qpos assms(3,6,7) by (simp add: round_double_def Let_def)
qed



section \<open>mergeReadings: order, keys, idempotence\<close>

lemma unique_filter_distinct:
  "distinct (map timestamp (unique_filter seen rs)) \<and>
   set (map timestamp (unique_filter seen rs)) \<inter> seen = {}"
  by (induction rs arbitrary: seen) (auto simp: Let_def)

lemma unique_filter_id:
  "distinct (map timestamp rs) \<Longrightarrow> set (map timestamp rs) \<inter> seen = {} \<Longrightarrow>
   unique_filter seen rs = rs"
  by (induction rs arbitrary: seen) (auto simp: Let_def)

lemma distinct_sort_key:
  "distinct (map f (sort_key f xs)) = distinct (map f xs)"
  by (simp add: distinct_map)

lemma mergeReadings_sorted: "sorted (map timestamp (mergeReadings xss))"
  by (simp add: mergeReadings_def)

lemma mergeReadings_distinct: "distinct (map timestamp (mergeReadings xss))"
  using unique_filter_distinct [of "{}" "concat xss"]
  by (simp only: mergeReadings_def Let_def distinct_sort_key)

lemma mergeReadings_idem: "mergeReadings [mergeReadings xss] = mergeReadings xss"
proof -
  let ?m = "mergeReadings xss"
  have "unique_filter {} ?m = ?m"
    using mergeReadings_distinct [of xss] by (intro unique_filter_id) simp_all
  moreover have "sort_key timestamp ?m = ?m"
    using mergeReadings_sorted [of xss] by (rule sort_key_id_if_sorted)
  ultimately show ?thesis by (simp add: mergeReadings_def [of "[?m]"])
qed

text \<open>
  C2. Whatever the reading sequences given to it, \<open>mergeReadings\<close> returns a list sorted by
  non-decreasing timestamp in which no two elements have the same time value; from no sequence
  at all, or from empty sequences only, it returns the empty list.
\<close>

theorem mergeReadings_sorted_unique:
  "sorted (map timestamp (mergeReadings xss)) \<and>
   distinct (map timestamp (mergeReadings xss)) \<and>
   mergeReadings [] = [] \<and>
   ((\<forall>xs \<in> set xss. xs = []) \<longrightarrow> mergeReadings xss = [])"
proof -
  have "mergeReadings [] = []" by (simp add: mergeReadings_def)
  moreover have "(\<forall>xs \<in> set xss. xs = []) \<longrightarrow> mergeReadings xss = []"
  proof
    assume "\<forall>xs \<in> set xss. xs = []"
    then have "concat xss = []" by simp
    then show "mergeReadings xss = []"
      by (simp only: mergeReadings_def Let_def unique_filter.simps sort_key_simps)
  qed
  ultimately show ?thesis
    using mergeReadings_sorted [of xss] mergeReadings_distinct [of xss] by blast
qed

theorem mergeReadings_sorted_unique_witness:
  "list_all (\<lambda>xs. xs = []) [[], [] :: WeatherReading list] \<and>
   sorted (map timestamp (mergeReadings [[], []])) \<and>
   distinct (map timestamp (mergeReadings [[], []])) \<and>
   mergeReadings [[], []] = []"
  using mergeReadings_sorted_unique [of "[[], []]"] by simp

text \<open>
  C3. Merging is idempotent: merging the result of merging two sequences \<open>a\<close> and \<open>b\<close> once
  more gives that result again, element for element.
\<close>

theorem mergeReadings_idempotent:
  "mergeReadings [mergeReadings [a, b]] = mergeReadings [a, b]"
  by (rule mergeReadings_idem)

section \<open>computeStats\<close>

text \<open>
  C8. \<open>computeStats\<close> returns the sentinel \<open>null\<close> exactly when the sequence of readings is
  empty; the empty case is a value, not an exception.
\<close>

theorem computeStats_absent_iff:
  "computeStats max_args readings = Inr None \<longleftrightarrow> readings = []"
  by (simp add: computeStats_def Let_def split: sum.splits)















subsection \<open>The averages of four afternoon readings\<close>

lemma number_18_1: "round_double (181 / 10) = Fin (2547348539231437 / 2 ^ 47)"
  by (rule round_double_eqI [where e = 4 and sh = "- 48" and m = 5094697078462874])
     (simp_all add: pow2_def)











section \<open>filterByDateRange\<close>

text \<open>
  C7. With the selector \<open>all\<close>, \<open>filterByDateRange\<close> returns its input as it is. With \<open>24h\<close>,
  \<open>7d\<close> or \<open>30d\<close> it returns, in their order, exactly the elements whose timestamp is at or
  after the cutoff, the instant \<open>now\<close> less 24 hours, 7 days or 30 days; an element at the
  cutoff itself is kept. The instant \<open>now\<close> is the one the function reads from the clock.
\<close>

theorem filterByDateRange_window:
  "filterByDateRange now readings RAll = readings \<and>
   filterByDateRange now readings R24h =
     filter (\<lambda>r. now - 24 * 60 * 60 * 1000 \<le> timestamp r) readings \<and>
   filterByDateRange now readings R7d =
     filter (\<lambda>r. now - 7 * (24 * 60 * 60 * 1000) \<le> timestamp r) readings \<and>
   filterByDateRange now readings R30d =
     filter (\<lambda>r. now - 30 * (24 * 60 * 60 * 1000) \<le> timestamp r) readings"
  by (simp add: filterByDateRange_def msMap_def)

lemma filter_window_eq_iff:
  fixes a b :: int
  assumes "a \<le> b"
  shows "filter (\<lambda>r. a \<le> timestamp r) rs = filter (\<lambda>r. b \<le> timestamp r) rs \<longleftrightarrow>
         (\<forall>r \<in> set rs. \<not> (a \<le> timestamp r \<and> timestamp r < b))"
proof -
  let ?ys = "filter (\<lambda>r. a \<le> timestamp r) rs"
  have "filter (\<lambda>r. b \<le> timestamp r) rs = filter (\<lambda>r. b \<le> timestamp r) ?ys"
    using assms by (auto intro: filter_cong)
  then have "?ys = filter (\<lambda>r. b \<le> timestamp r) rs \<longleftrightarrow> filter (\<lambda>r. b \<le> timestamp r) ?ys = ?ys"
    by auto
  also have "\<dots> \<longleftrightarrow> (\<forall>r \<in> set ?ys. b \<le> timestamp r)"
    by (rule filter_id_conv)
  also have "\<dots> \<longleftrightarrow> (\<forall>r \<in> set rs. \<not> (a \<le> timestamp r \<and> timestamp r < b))"
    by auto
  finally show ?thesis .
qed

text \<open>
  C1 as the specification has it: \<open>filterByDateRange\<close> takes the reference instant as a
  parameter, so that two calls with equal arguments return equal results whatever the time
  of the call. The source function has two parameters, the readings and the selector, and
  reads \<open>new Date()\<close> in its body. One reading and the selector \<open>24h\<close>, at two readings of
  the clock two days apart: the first call keeps the reading, the second drops it.
\<close>

theorem filterByDateRange_clock_counterexample:
  "filterByDateRange 1770555600000
     [\<lparr>timestamp = 1770552021000, temperature = Fin 20, humidity = Fin 50\<rparr>] R24h
   \<noteq> filterByDateRange 1770728400000
     [\<lparr>timestamp = 1770552021000, temperature = Fin 20, humidity = Fin 50\<rparr>] R24h"
  by (simp add: filterByDateRange_def msMap_def)

text \<open>
  C1, amended: the result of \<open>filterByDateRange\<close> is determined by the readings, the selector
  and the instant its body reads from the clock. With the selector \<open>all\<close> the clock does not
  matter. With another selector, of window \<open>w\<close>, two calls with equal arguments at clock
  readings \<open>c1 \<le> c2\<close> return equal results exactly when no reading has its timestamp from
  \<open>c1 - w\<close> up to, not including, \<open>c2 - w\<close>.
\<close>

theorem filterByDateRange_clock:
  "filterByDateRange c1 rs RAll = filterByDateRange c2 rs RAll \<and>
   (c1 \<le> c2 \<and> msMap rg = Some w \<longrightarrow>
      (filterByDateRange c1 rs rg = filterByDateRange c2 rs rg) =
      (\<forall>r \<in> set rs. \<not> (c1 - w \<le> timestamp r \<and> timestamp r < c2 - w)))"
proof -
  have "filterByDateRange c1 rs RAll = filterByDateRange c2 rs RAll"
    by (simp add: filterByDateRange_def)
  moreover have "(filterByDateRange c1 rs rg = filterByDateRange c2 rs rg) =
      (\<forall>r \<in> set rs. \<not> (c1 - w \<le> timestamp r \<and> timestamp r < c2 - w))"
    if "c1 \<le> c2" "msMap rg = Some w"
  proof -
    from that(2) have "rg \<noteq> RAll" by (auto simp: msMap_def)
    moreover from that(1) have "c1 - w \<le> c2 - w" by simp
    ultimately show ?thesis
      using that(2) filter_window_eq_iff [of "c1 - w" "c2 - w" rs]
      by (simp add: filterByDateRange_def Let_def)
  qed
  ultimately show ?thesis by blast
qed

theorem filterByDateRange_clock_witness:
  "(1770555600000 :: int) \<le> 1770728400000 \<and> msMap R24h = Some 86400000 \<and>
   filterByDateRange 1770555600000
     [\<lparr>timestamp = 1770552021000, temperature = Fin 20, humidity = Fin 50\<rparr>] RAll
   = filterByDateRange 1770728400000
     [\<lparr>timestamp = 1770552021000, temperature = Fin 20, humidity = Fin 50\<rparr>] RAll \<and>
   (filterByDateRange 1770555600000
     [\<lparr>timestamp = 1770552021000, temperature = Fin 20, humidity = Fin 50\<rparr>] R24h
   = filterByDateRange 1770728400000
     [\<lparr>timestamp = 1770552021000, temperature = Fin 20, humidity = Fin 50\<rparr>] R24h) =
   (\<forall>r \<in> set [\<lparr>timestamp = 1770552021000, temperature = Fin 20, humidity = Fin 50\<rparr>].
      \<not> (1770555600000 - 86400000 \<le> timestamp r \<and> timestamp r < 1770728400000 - 86400000))"
  using filterByDateRange_clock [of 1770555600000
     "[\<lparr>timestamp = 1770552021000, temperature = Fin 20, humidity = Fin 50\<rparr>]"
     1770728400000 R24h 86400000]
  by (simp add: msMap_def)

section \<open>The calendar of a time value\<close>

lemma sample_time_value:
  "MakeDate (MakeDay 2026 1 8) (MakeTime 12 0 21 0) = 1770552021000"
  by (simp add: MakeDate_def MakeDay_def MakeTime_def DayFromYear_def DaysInYear_def
      msPerDay_def)

lemma sample_year: "YearFromTime 1770552021000 = 2026"
  by (simp add: YearFromTime_def Day_def msPerDay_def TimeFromYear_def DayFromYear_def
      year_down.simps)

lemma sample_month: "MonthFromTime 1770552021000 = 1"
  by (simp add: MonthFromTime_def DayWithinYear_def InLeapYear_def DaysInYear_def
      sample_year Day_def msPerDay_def DayFromYear_def)

lemma sample_date: "DateFromTime 1770552021000 = 8"
  by (simp add: DateFromTime_def sample_month DayWithinYear_def InLeapYear_def DaysInYear_def
      sample_year Day_def msPerDay_def DayFromYear_def)

lemma div_bounds:
  fixes a n :: int
  assumes "0 < n"
  shows "n * (a div n) \<le> a" and "a < n * (a div n) + n"
proof -
  have "a = n * (a div n) + a mod n" by simp
  moreover have "0 \<le> a mod n" "a mod n < n" using assms by simp_all
  ultimately show "n * (a div n) \<le> a" and "a < n * (a div n) + n" by linarith+
qed

lemma DayFromYear_1970: "DayFromYear (1970 + j) = 365 * j + ((j + 1) div 4 - (j + 69) div 100 + (j + 369) div 400)"
proof -
  have "1970 + j - 1970 = j" "1970 + j - 1969 = j + 1" "1970 + j - 1901 = j + 69"
    "1970 + j - 1601 = j + 369" by simp_all
  then show ?thesis unfolding DayFromYear_def by (simp only:)
qed

lemma leap_days_lower:
  fixes j :: int
  shows "97 * j - 506 \<le> 400 * ((j + 1) div 4 - (j + 69) div 100 + (j + 369) div 400)"
proof -
  define a b c where "a = (j + 1) div 4" and "b = (j + 69) div 100" and "c = (j + 369) div 400"
  have "j + 1 < 4 * a + 4" unfolding a_def by (rule div_bounds) simp
  moreover have "100 * b \<le> j + 69" unfolding b_def by (rule div_bounds) simp
  moreover have "j + 369 < 400 * c + 400" unfolding c_def by (rule div_bounds) simp
  ultimately have "97 * j - 506 \<le> 400 * (a - b + c)" by simp
  then show ?thesis by (simp only: a_def b_def c_def)
qed

lemma DayFromYear_lower: "0 \<le> j \<Longrightarrow> 365 * j \<le> DayFromYear (1970 + j)"
proof -
  assume j: "0 \<le> j"
  define l where "l = (j + 1) div 4 - (j + 69) div 100 + (j + 369) div 400"
  have "0 \<le> l"
  proof (cases "6 \<le> j")
    case True
    have "97 * j - 506 \<le> 400 * l" unfolding l_def by (rule leap_days_lower)
    with True show ?thesis by simp
  next
    case False
    with j have "j = 0 \<or> j = 1 \<or> j = 2 \<or> j = 3 \<or> j = 4 \<or> j = 5" by auto
    then show ?thesis unfolding l_def by auto
  qed
  then show ?thesis by (simp add: DayFromYear_1970 l_def)
qed

lemma DayFromYear_upper: "j \<le> 0 \<Longrightarrow> 366 * j \<le> DayFromYear (1970 + j)"
proof -
  assume j: "j \<le> 0"
  define l where "l = (j + 1) div 4 - (j + 69) div 100 + (j + 369) div 400"
  have "j \<le> l"
  proof (cases "j \<le> - 2")
    case True
    have "97 * j - 506 \<le> 400 * l" unfolding l_def by (rule leap_days_lower)
    with True show ?thesis by simp
  next
    case False
    with j have "j = 0 \<or> j = - 1" by auto
    then show ?thesis unfolding l_def by auto
  qed
  then show ?thesis by (simp add: DayFromYear_1970 l_def)
qed

lemma year_down_bounds:
  "t < TimeFromYear (y + 1) \<Longrightarrow>
   TimeFromYear (year_down t y) \<le> t \<and> t < TimeFromYear (year_down t y + 1)"
proof (induction t y rule: year_down.induct)
  case (1 t y)
  show ?case
  proof (cases "t < TimeFromYear y")
    case True
    then have "t < TimeFromYear (y - 1 + 1)" by simp
    with True "1.IH" have "TimeFromYear (year_down t (y - 1)) \<le> t \<and>
        t < TimeFromYear (year_down t (y - 1) + 1)" by blast
    moreover have "year_down t y = year_down t (y - 1)"
      using True by (subst year_down.simps) simp
    ultimately show ?thesis by simp
  next
    case False
    then have "year_down t y = y" by (subst year_down.simps) simp
    with False "1.prems" show ?thesis by simp
  qed
qed

lemma YearFromTime_bounds:
  "TimeFromYear (YearFromTime t) \<le> t \<and> t < TimeFromYear (YearFromTime t + 1)"
proof -
  define d where "d = Day t"
  define j where "j = (if 0 \<le> d then d div 365 else d div 366)"
  have t: "t < msPerDay * d + msPerDay"
    unfolding d_def Day_def by (rule div_bounds) (simp add: msPerDay_def)
  have "d < DayFromYear (1970 + (j + 1))"
  proof (cases "0 \<le> d")
    case True
    then have j0: "0 \<le> j + 1" by (simp add: j_def pos_imp_zdiv_nonneg_iff)
    have "d < 365 * (d div 365) + 365" by (rule div_bounds) simp
    also have "\<dots> = 365 * (j + 1)" using True by (simp add: j_def)
    also have "\<dots> \<le> DayFromYear (1970 + (j + 1))" using j0 by (rule DayFromYear_lower)
    finally show ?thesis .
  next
    case False
    then have "d div 366 < 0" by (simp add: div_neg_pos_less0)
    then have j0: "j + 1 \<le> 0" using False by (simp add: j_def)
    have "d < 366 * (d div 366) + 366" by (rule div_bounds) simp
    also have "\<dots> = 366 * (j + 1)" using False by (simp add: j_def)
    also have "\<dots> \<le> DayFromYear (1970 + (j + 1))" using j0 by (rule DayFromYear_upper)
    finally show ?thesis .
  qed
  then have "d + 1 \<le> DayFromYear (1970 + j + 1)" by (simp add: add.assoc)
  then have le: "msPerDay * (d + 1) \<le> msPerDay * DayFromYear (1970 + j + 1)"
    by (intro mult_left_mono) (simp_all add: msPerDay_def)
  have "msPerDay * d + msPerDay = msPerDay * (d + 1)"
    by (simp only: distrib_left mult_1_right)
  with t have "t < msPerDay * (d + 1)" by (simp only:)
  then have "t < msPerDay * DayFromYear (1970 + j + 1)"
    using le by (rule less_le_trans)
  then have "t < TimeFromYear (1970 + j + 1)"
    by (simp only: TimeFromYear_def)
  then have "TimeFromYear (year_down t (1970 + j)) \<le> t \<and>
      t < TimeFromYear (year_down t (1970 + j) + 1)" by (rule year_down_bounds)
  then show ?thesis unfolding YearFromTime_def j_def d_def .
qed

section \<open>Numbers too large for a double\<close>

lemma floor_log2_bounds:
  assumes "0 < a"
  shows "pow2 (floor_log2 a) \<le> a \<and> a < pow2 (floor_log2 a + 1)"
proof (cases "1 \<le> a")
  case True
  define x where "x = \<lfloor>a\<rfloor>"
  have x: "0 < x" using True by (simp add: x_def)
  note b = bitlen_bounds [OF x]
  have k: "1 \<le> bitlen x" using x bitlen_eq_zero_iff [of x] bitlen_nonneg [of x] by linarith
  have e: "floor_log2 a = bitlen x - 1" using True by (simp add: floor_log2_def x_def)
  have "rat_of_int (2 ^ nat (bitlen x - 1)) \<le> of_int x" using b by (simp only: of_int_le_iff)
  also have "\<dots> \<le> a" by (simp add: x_def)
  finally have lo: "pow2 (bitlen x - 1) \<le> a" using k by (simp add: pow2_def)
  have "x + 1 \<le> 2 ^ nat (bitlen x)" using b by simp
  then have "rat_of_int (x + 1) \<le> of_int (2 ^ nat (bitlen x))" by (simp only: of_int_le_iff)
  moreover have "a < of_int (x + 1)" unfolding x_def by linarith
  ultimately have hi: "a < pow2 (bitlen x)" using k by (simp add: pow2_def)
  from lo hi show ?thesis by (simp add: e)
next
  case False
  define y where "y = \<lceil>1 / a\<rceil> - 1"
  have inv: "1 < 1 / a" using False assms by simp
  then have y: "0 < y" unfolding y_def by linarith
  note b = bitlen_bounds [OF y]
  have k: "1 \<le> bitlen y" using y bitlen_eq_zero_iff [of y] bitlen_nonneg [of y] by linarith
  have e: "floor_log2 a = - bitlen y" using False by (simp add: floor_log2_def y_def)
  have "1 / a \<le> of_int (y + 1)" unfolding y_def by simp
  also have "\<dots> \<le> rat_of_int (2 ^ nat (bitlen y))"
    using b by (simp only: of_int_le_iff) simp
  finally have "1 / a \<le> 2 ^ nat (bitlen y)" by simp
  then have lo: "1 / 2 ^ nat (bitlen y) \<le> a"
    using assms by (simp add: field_simps)
  have "rat_of_int (2 ^ nat (bitlen y - 1)) \<le> of_int y" using b by (simp only: of_int_le_iff)
  also have "\<dots> < 1 / a" unfolding y_def by linarith
  finally have "2 ^ nat (bitlen y - 1) < 1 / a" by simp
  then have hi: "a < 1 / 2 ^ nat (bitlen y - 1)"
    using assms by (simp add: field_simps)
  have p0: "pow2 (- bitlen y) = 1 / 2 ^ nat (bitlen y)" using k by (simp add: pow2_def)
  have p1: "pow2 (1 - bitlen y) = 1 / 2 ^ nat (bitlen y - 1)"
  proof (cases "bitlen y = 1")
    case True
    then show ?thesis by (simp add: pow2_def)
  next
    case False
    with k have "\<not> 0 \<le> 1 - bitlen y" by simp
    moreover have "- (1 - bitlen y) = bitlen y - 1" by simp
    ultimately show ?thesis by (simp add: pow2_def)
  qed
  from lo hi show ?thesis by (simp add: e p0 p1)
qed

lemma pow2_mono: "d \<le> e \<Longrightarrow> pow2 d \<le> pow2 e"
proof -
  assume "d \<le> e"
  then obtain k where e: "e = d + int k" by (metis zle_iff_zadd)
  have "pow2 (d + int k) = pow2 d * 2 ^ k"
  proof (induction k)
    case 0
    show ?case by simp
  next
    case (Suc k)
    have "pow2 (x + 1) = 2 * pow2 x" for x
    proof (cases "0 \<le> x")
      case True
      then show ?thesis by (simp add: pow2_def nat_add_distrib)
    next
      case False
      then have "nat (- x) = Suc (nat (- (x + 1)))" by simp
      with False show ?thesis by (simp add: pow2_def)
    qed
    from this [of "d + int k"] Suc show ?case by (simp add: ac_simps)
  qed
  moreover have "(1::rat) \<le> 2 ^ k" by simp
  ultimately show "pow2 d \<le> pow2 e"
    using pow2_pos [of d] by (simp add: e)
qed

lemma round_half_even_ge_floor: "\<lfloor>x\<rfloor> \<le> round_half_even x"
  by (simp add: round_half_even_def Let_def)

lemma round_double_overflow:
  assumes "2 ^ 1024 \<le> q"
  shows "round_double q = PosInf"
proof -
  have qpos: "0 < q" using assms by (rule less_le_trans [rotated]) simp
  define e where "e = floor_log2 q"
  from floor_log2_bounds [OF qpos] have lo: "pow2 e \<le> q" and hi: "q < pow2 (e + 1)"
    by (simp_all add: e_def)
  have e: "1024 \<le> e"
  proof (rule ccontr)
    assume "\<not> 1024 \<le> e"
    then have "e + 1 \<le> 1024" by simp
    then have "pow2 (e + 1) \<le> pow2 1024" by (rule pow2_mono)
    also have "\<dots> = 2 ^ 1024" by (simp add: pow2_def)
    finally show False using hi assms by simp
  qed
  define sh where "sh = max (e - 52) (- 1074)"
  have sh: "sh = e - 52" using e by (simp add: sh_def)
  have ne: "nat e = 52 + nat (e - 52)" using e by simp
  have "pow2 e = 2 ^ nat e" using e by (simp add: pow2_def)
  also have "\<dots> = 2 ^ 52 * 2 ^ nat (e - 52)" by (subst ne) (rule power_add)
  also have "2 ^ nat (e - 52) = pow2 sh" using e by (simp add: sh pow2_def)
  finally have split: "pow2 e = 2 ^ 52 * pow2 sh" .
  define m where "m = round_half_even (q / pow2 sh)"
  have "2 ^ 52 \<le> q / pow2 sh"
    using lo pow2_pos [of sh] by (simp add: split field_simps)
  then have "2 ^ 52 \<le> \<lfloor>q / pow2 sh\<rfloor>" by (simp add: le_floor_iff)
  then have m: "2 ^ 52 \<le> m"
    unfolding m_def using round_half_even_ge_floor [of "q / pow2 sh"] by (rule order_trans)
  have "2 ^ 1024 = pow2 1024" by (simp add: pow2_def)
  also have "\<dots> \<le> pow2 e" using e by (rule pow2_mono)
  also have "\<dots> = 2 ^ 52 * pow2 sh" by (rule split)
  also have "\<dots> \<le> rat_of_int m * pow2 sh"
  proof -
    have "rat_of_int (2 ^ 52) \<le> rat_of_int m" using m by (simp only: of_int_le_iff)
    then show ?thesis using pow2_pos [of sh] by simp
  qed
  finally have "2 ^ 1024 \<le> rat_of_int m * pow2 sh" .
  then show ?thesis
    using qpos by (simp add: round_double_def Let_def m_def sh_def e_def)
qed

section \<open>The averages and the arithmetic mean\<close>




















section \<open>parseCSV\<close>

lemma indexOf_None: "indexOf s c = None \<longleftrightarrow> c \<notin> set s"
  by (induction s) auto

lemma indexOf_Some:
  "indexOf s c = Some i \<Longrightarrow> take i s = takeWhile (\<lambda>x. x \<noteq> c) s \<and>
     drop (i + 1) s = tl (dropWhile (\<lambda>x. x \<noteq> c) s)"
  by (induction s arbitrary: i) (auto split: if_splits)

lemma match_here_length: "match_here label t s = Some m \<Longrightarrow> length m = 2"
  by (auto simp: match_here_def Let_def split: option.splits list.splits if_splits)

lemma String_match_length: "String_match s label t = Some m \<Longrightarrow> length m = 2"
  by (induction s) (auto dest: match_here_length split: option.splits)

lemma loop_body_line:
  assumes "i < length lines"
  shows "loop_body Date_parse lines i readings =
     Inr (readings @ (case line_reading Date_parse (lines ! i) of None \<Rightarrow> [] | Some r \<Rightarrow> [r]))"
proof (cases "indexOf (trim (lines ! i)) CHR '',''")
  case None
  then have "CHR '','' \<notin> set (trim (lines ! i))" by (simp add: indexOf_None)
  with None assms show ?thesis
    by (simp add: loop_body_def line_reading_def nth_opt_def Let_def)
next
  case (Some k)
  then have "CHR '','' \<in> set (trim (lines ! i))"
    using indexOf_None [of "trim (lines ! i)" "CHR '',''"] by auto
  moreover note indexOf_Some [OF Some]
  ultimately show ?thesis
    using Some assms
    by (auto simp: loop_body_def line_reading_def timestamp_field_def payload_field_def
        nth_opt_def Let_def group1_def parseFloat_arg_def isNaN_def
        dest!: String_match_length split: option.splits)
qed

lemma parse_loop_lines:
  "parse_loop Date_parse lines i readings =
     Inr (readings @ List.map_filter (line_reading Date_parse) (drop i lines))"
proof (induction Date_parse lines i readings rule: parse_loop.induct)
  case (1 Date_parse lines i readings)
  show ?case
  proof (cases "i < length lines")
    case True
    let ?r = "case line_reading Date_parse (lines ! i) of None \<Rightarrow> [] | Some r \<Rightarrow> [r]"
    have body: "loop_body Date_parse lines i readings = Inr (readings @ ?r)"
      using True by (rule loop_body_line)
    have d: "drop i lines = lines ! i # drop (i + 1) lines"
      using True by (simp add: Cons_nth_drop_Suc)
    have "parse_loop Date_parse lines i readings =
        parse_loop Date_parse lines (i + 1) (readings @ ?r)"
      using True body by (subst parse_loop.simps) simp
    also have "\<dots> = Inr ((readings @ ?r) @
        List.map_filter (line_reading Date_parse) (drop (i + 1) lines))"
      using True body by (intro "1.IH") simp_all
    also have "\<dots> = Inr (readings @ List.map_filter (line_reading Date_parse) (drop i lines))"
      unfolding d by (simp split: option.splits)
    finally show ?thesis .
  next
    case False
    then show ?thesis by (subst parse_loop.simps) simp
  qed
qed


lemma is_num_char_cases:
  "is_num_char c \<Longrightarrow> \<not> is_white_space c \<and> c \<noteq> CHR ''-'' \<and> c \<noteq> CHR ''+'' \<and> c \<noteq> CHR ''I''"
  by (auto simp: is_num_char_def is_digit_def is_white_space_def)

lemma match_here_group:
  "match_here label t s = Some m \<Longrightarrow>
   \<exists>w g. m = [w, g] \<and> g \<noteq> [] \<and> (\<forall>c \<in> set g. is_num_char c)"
  by (auto simp: match_here_def Let_def split: option.splits list.splits if_splits
      dest: set_takeWhileD)

lemma String_match_group:
  "String_match s label t = Some m \<Longrightarrow>
   \<exists>w g. m = [w, g] \<and> g \<noteq> [] \<and> (\<forall>c \<in> set g. is_num_char c)"
  by (induction s) (auto dest: match_here_group split: option.splits)

lemma round_half_even_nonneg: "0 \<le> x \<Longrightarrow> 0 \<le> round_half_even x"
  by (simp add: round_half_even_def Let_def)

lemma round_double_nonneg:
  assumes "0 \<le> q"
  shows "num_le (Fin 0) (round_double q)"
proof (cases "q = 0")
  case True
  then show ?thesis by (simp add: round_double_def num_le_def)
next
  case False
  define sh where "sh = max (floor_log2 \<bar>q\<bar> - 52) (- 1074)"
  define r where "r = rat_of_int (round_half_even (\<bar>q\<bar> / pow2 sh)) * pow2 sh"
  have "0 \<le> \<bar>q\<bar> / pow2 sh" using pow2_pos [of sh] by simp
  then have "0 \<le> round_half_even (\<bar>q\<bar> / pow2 sh)" by (rule round_half_even_nonneg)
  then have r: "0 \<le> r" using pow2_pos [of sh] by (simp add: r_def)
  have "round_double q = (if 2 ^ 1024 \<le> r then PosInf else Fin r)"
    using False assms by (simp add: round_double_def Let_def r_def sh_def)
  with r show ?thesis by (simp add: num_le_def)
qed

lemma pow10_pos: "0 < pow10 e"
  by (simp add: pow10_def)

lemma unsigned_literal_nonneg: "unsigned_literal s = Some mv \<Longrightarrow> 0 \<le> mv"
  by (auto simp: unsigned_literal_def Let_def pow10_pos less_imp_le split: if_splits)

lemma parseFloat_unsigned:
  assumes "dropWhile is_white_space s = c # r" "c \<noteq> CHR ''-''"
  shows "parseFloat s = NaN \<or> num_le (Fin 0) (parseFloat s)"
proof -
  define u where "u = (if c = CHR ''+'' then r else c # r)"
  have pf: "parseFloat s =
      (if startsWith u ''Infinity'' then PosInf
       else case unsigned_literal u of None \<Rightarrow> NaN | Some mv \<Rightarrow> round_double mv)"
    using assms by (simp add: parseFloat_def Let_def u_def split: option.splits)
  show ?thesis
  proof (cases "startsWith u ''Infinity''")
    case True
    with pf show ?thesis by (simp add: num_le_def)
  next
    case False
    show ?thesis
    proof (cases "unsigned_literal u")
      case None
      with pf False show ?thesis by simp
    next
      case (Some mv)
      then have "0 \<le> mv" by (rule unsigned_literal_nonneg)
      then have "num_le (Fin 0) (round_double mv)" by (rule round_double_nonneg)
      with pf False Some show ?thesis by simp
    qed
  qed
qed

lemma parseFloat_group:
  assumes "g \<noteq> []" "\<forall>c \<in> set g. is_num_char c"
  shows "parseFloat g = NaN \<or> num_le (Fin 0) (parseFloat g)"
proof -
  from assms obtain c r where g: "g = c # r" and c: "is_num_char c"
    by (cases g) auto
  from c have "dropWhile is_white_space g = c # r" and "c \<noteq> CHR ''-''"
    using is_num_char_cases [of c] by (simp_all add: g)
  then show ?thesis by (rule parseFloat_unsigned)
qed

lemma line_reading_nonneg:
  assumes "line_reading Date_parse l = Some r"
  shows "num_le (Fin 0) (temperature r) \<and> num_le (Fin 0) (humidity r)"
proof -
  define rawData where "rawData = payload_field (trim l)"
  from assms obtain hm tm where
    hm: "String_match rawData ''Humidity:'' CHR ''%'' = Some hm" and
    tm: "String_match rawData ''Temp:'' CHR ''C'' = Some tm" and
    h: "humidity r = parseFloat (hm ! 1)" "parseFloat (hm ! 1) \<noteq> NaN" and
    t: "temperature r = parseFloat (tm ! 1)" "parseFloat (tm ! 1) \<noteq> NaN"
    by (auto simp: line_reading_def Let_def rawData_def split: if_splits option.splits)
  from String_match_group [OF hm] obtain hw hg where
    "hm = [hw, hg]" "hg \<noteq> []" "\<forall>c \<in> set hg. is_num_char c" by blast
  then have "parseFloat (hm ! 1) = NaN \<or> num_le (Fin 0) (parseFloat (hm ! 1))"
    using parseFloat_group [of hg] by simp
  moreover from String_match_group [OF tm] obtain tw tg where
    "tm = [tw, tg]" "tg \<noteq> []" "\<forall>c \<in> set tg. is_num_char c" by blast
  then have "parseFloat (tm ! 1) = NaN \<or> num_le (Fin 0) (parseFloat (tm ! 1))"
    using parseFloat_group [of tg] by simp
  ultimately show ?thesis using h t by simp
qed

subsection \<open>The matcher and the language of the pattern\<close>

text \<open>
  \<open>String_match\<close> returns a match only where the text has one, and finds one whenever the
  text has one: for the two patterns of the parser the closing character is no digit and
  no dot, which is what makes the greedy choice the only one.
\<close>

lemma match_label_sound:
  "match_label label s = Some r \<Longrightarrow>
   \<exists>lab. s = lab @ r \<and> length lab = length label \<and>
         map canonicalize lab = map canonicalize label"
proof (induction label s rule: match_label.induct)
  case (1 s)
  then show ?case by simp
next
  case (2 p ps)
  then show ?case by simp
next
  case (3 p ps c s)
  from "3.prems" have c: "canonicalize c = canonicalize p" and m: "match_label ps s = Some r"
    by (simp_all split: if_splits)
  from "3.IH" [OF c m] obtain lab where "s = lab @ r" "length lab = length ps"
    "map canonicalize lab = map canonicalize ps" by blast
  with c have "c # s = (c # lab) @ r \<and> length (c # lab) = length (p # ps) \<and>
      map canonicalize (c # lab) = map canonicalize (p # ps)" by simp
  then show ?case by blast
qed

lemma match_label_complete:
  "length lab = length label \<Longrightarrow> map canonicalize lab = map canonicalize label \<Longrightarrow>
   match_label label (lab @ r) = Some r"
proof (induction label arbitrary: lab)
  case Nil
  then show ?case by simp
next
  case (Cons p ps)
  then obtain c lab' where "lab = c # lab'" by (cases lab) auto
  with Cons show ?case by simp
qed

lemma match_here_sound:
  assumes "match_here label t s = Some m"
  shows "\<exists>w g post. m = [w, g] \<and> s = w @ post \<and> pattern_match label t s w g"
proof -
  from assms obtain r where r: "match_label label s = Some r"
    by (auto simp: match_here_def split: option.splits)
  define ws where "ws = takeWhile is_white_space r"
  define r' where "r' = dropWhile is_white_space r"
  define g where "g = takeWhile is_num_char r'"
  define rest where "rest = dropWhile is_num_char r'"
  from assms r obtain c post where rest: "rest = c # post" and g: "g \<noteq> []"
    and c: "canonicalize c = canonicalize t"
    and m: "m = [take (length s - length post) s, g]"
    by (auto simp: match_here_def Let_def r'_def g_def rest_def split: list.splits if_splits)
  from match_label_sound [OF r] obtain lab where lab: "s = lab @ r"
    "length lab = length label" "map canonicalize lab = map canonicalize label" by blast
  have "r = ws @ r'" by (simp add: ws_def r'_def)
  moreover have "r' = g @ rest" by (simp add: g_def rest_def)
  ultimately have s: "s = (lab @ ws @ g @ [c]) @ post" using lab(1) rest by simp
  then have "take (length s - length post) s = lab @ ws @ g @ [c]" by simp
  with m have m': "m = [lab @ ws @ g @ [c], g]" by simp
  have "\<forall>x \<in> set ws. is_white_space x" by (auto simp: ws_def dest: set_takeWhileD)
  moreover have "\<forall>x \<in> set g. is_num_char x" by (auto simp: g_def dest: set_takeWhileD)
  ultimately have "pattern_match label t s (lab @ ws @ g @ [c]) g"
    unfolding pattern_match_def using s lab(2,3) g c
    by (intro exI [of _ "[]"] exI [of _ lab] exI [of _ ws] exI [of _ c] exI [of _ post]) simp
  with m' s show ?thesis by blast
qed

lemma pattern_match_shift: "pattern_match label t s w g \<Longrightarrow> pattern_match label t (x # s) w g"
  unfolding pattern_match_def
  by (elim exE conjE) (metis append_Cons)

lemma String_match_sound:
  "String_match s label t = Some m \<Longrightarrow> \<exists>w g. m = [w, g] \<and> pattern_match label t s w g"
proof (induction s)
  case Nil
  then show ?case using match_here_sound [of label t "[]" m] by auto
next
  case (Cons x s)
  show ?case
  proof (cases "match_here label t (x # s)")
    case None
    with Cons.prems have "String_match s label t = Some m" by simp
    from Cons.IH [OF this] show ?thesis by (blast intro: pattern_match_shift)
  next
    case (Some m')
    with Cons.prems have "m' = m" by simp
    with Some match_here_sound [of label t "x # s" m] show ?thesis by blast
  qed
qed

lemma match_here_complete:
  assumes "length lab = length label" "map canonicalize lab = map canonicalize label"
    and "\<forall>x \<in> set ws. is_white_space x"
    and "g \<noteq> []" "\<forall>x \<in> set g. is_num_char x"
    and "canonicalize c = canonicalize t" "\<not> is_num_char c"
  shows "match_here label t (lab @ ws @ g @ c # post) = Some [lab @ ws @ g @ [c], g]"
proof -
  have l: "match_label label (lab @ ws @ g @ c # post) = Some (ws @ g @ c # post)"
    using assms(1,2) by (rule match_label_complete)
  from assms(4,5) obtain y g' where g: "g = y # g'" and "is_num_char y" by (cases g) auto
  then have "\<not> is_white_space y" using is_num_char_cases by blast
  then have d: "dropWhile is_white_space (ws @ g @ c # post) = g @ c # post"
    using assms(3) by (simp add: g dropWhile_append3)
  have tk: "takeWhile is_num_char (g @ c # post) = g"
    using assms(5,7) by simp
  have dr: "dropWhile is_num_char (g @ c # post) = c # post"
    using assms(5,7) by simp
  show ?thesis
    using assms(4,6) by (simp add: match_here_def l d tk dr)
qed

lemma String_match_append:
  "match_here label t s \<noteq> None \<Longrightarrow> String_match (pre @ s) label t \<noteq> None"
proof (induction pre)
  case Nil
  then show ?case by (cases s) (auto split: option.splits)
next
  case (Cons x pre)
  then show ?case by (auto split: option.splits)
qed

lemma String_match_complete:
  assumes "pattern_match label t s w g"
    and "\<And>c. canonicalize c = canonicalize t \<Longrightarrow> \<not> is_num_char c"
  shows "String_match s label t \<noteq> None"
proof -
  from assms(1) obtain pre lab ws c post where
    s: "s = pre @ (lab @ ws @ g @ [c]) @ post" and
    l: "length lab = length label" "map canonicalize lab = map canonicalize label" and
    w: "\<forall>x \<in> set ws. is_white_space x" and
    g: "g \<noteq> []" "\<forall>x \<in> set g. is_num_char x" and
    c: "canonicalize c = canonicalize t"
    unfolding pattern_match_def by blast
  from c have "\<not> is_num_char c" by (rule assms(2))
  with l w g c have "match_here label t (lab @ ws @ g @ c # post) = Some [lab @ ws @ g @ [c], g]"
    by (intro match_here_complete)
  then have "String_match (pre @ lab @ ws @ g @ c # post) label t \<noteq> None"
    by (intro String_match_append) simp
  then show ?thesis by (simp add: s)
qed

lemma terminators:
  "canonicalize c = canonicalize CHR ''%'' \<Longrightarrow> \<not> is_num_char c"
  "canonicalize c = canonicalize CHR ''C'' \<Longrightarrow> \<not> is_num_char c"
  by (auto simp: canonicalize_def is_num_char_def is_digit_def)

subsection \<open>One line of the weather station\<close>

lemma trim_sample:
  "trim ''2026-02-08 12:00:21,Humidity: 59.00%  Temp: 18.10C'' =
   ''2026-02-08 12:00:21,Humidity: 59.00%  Temp: 18.10C''"
  by (simp add: trim_def is_white_space_def)

lemma header_sample:
  "\<not> startsWith (toLowerCase ''2026-02-08 12:00:21,Humidity: 59.00%  Temp: 18.10C'') ''timestamp''"
  by (simp add: startsWith_def toLowerCase_def to_lower_def)

lemma hm_sample:
  "String_match ''Humidity: 59.00%  Temp: 18.10C'' ''Humidity:'' CHR ''%'' =
   Some [''Humidity: 59.00%'', ''59.00'']"
  by (simp add: match_here_def canonicalize_def is_white_space_def is_num_char_def is_digit_def)

lemma tm_sample:
  "String_match ''Humidity: 59.00%  Temp: 18.10C'' ''Temp:'' CHR ''C'' =
   Some [''Temp: 18.10C'', ''18.10'']"
  by (simp add: match_here_def canonicalize_def is_white_space_def is_num_char_def is_digit_def)

lemma pf_h: "parseFloat ''59.00'' = round_double 59"
  by (simp add: parseFloat_def unsigned_literal_def exponent_part_def startsWith_def
      is_white_space_def is_digit_def digits_value_def digit_value_def pow10_def)

lemma pf_t: "parseFloat ''18.10'' = round_double (181 / 10)"
  by (simp add: parseFloat_def unsigned_literal_def exponent_part_def startsWith_def
      is_white_space_def is_digit_def digits_value_def digit_value_def pow10_def)

lemma parseCSV_lines:
  "parseCSV Date_parse raw =
     Inr (List.map_filter (line_reading Date_parse) (split_lines (trim (replace_crlf raw))))"
  by (simp add: parseCSV_def parse_loop_lines)

lemma number_59: "round_double 59 = Fin 59"
  by (rule round_double_eqI [where e = 5 and sh = "- 47" and m = "59 * 2 ^ 47"])
     (simp_all add: pow2_def)

lemma fields_sample:
  "timestamp_field ''2026-02-08 12:00:21,Humidity: 59.00%  Temp: 18.10C'' = ''2026-02-08 12:00:21''"
  "payload_field ''2026-02-08 12:00:21,Humidity: 59.00%  Temp: 18.10C'' = ''Humidity: 59.00%  Temp: 18.10C''"
  by (simp_all add: timestamp_field_def payload_field_def trim_def is_white_space_def)

lemma line_reading_sample:
  assumes "Date_parse ''2026-02-08 12:00:21'' = Some t"
  shows "line_reading Date_parse ''2026-02-08 12:00:21,Humidity: 59.00%  Temp: 18.10C'' =
     Some \<lparr>timestamp = t, temperature = round_double (181 / 10), humidity = Fin 59\<rparr>"
proof -
  have n: "round_double (181 / 10) \<noteq> NaN" by (simp only: number_18_1) simp
  show ?thesis
    unfolding line_reading_def trim_sample Let_def fields_sample assms hm_sample tm_sample
    using header_sample n
    by (simp add: pf_h pf_t number_59)
qed

lemma lines_sample:
  "split_lines (trim (replace_crlf ''2026-02-08 12:00:21,Humidity: 59.00%  Temp: 18.10C'')) =
   [''2026-02-08 12:00:21,Humidity: 59.00%  Temp: 18.10C'']"
  by (simp add: trim_def is_white_space_def)

lemma parseCSV_sample:
  assumes "Date_parse ''2026-02-08 12:00:21'' = Some t"
  shows "parseCSV Date_parse ''2026-02-08 12:00:21,Humidity: 59.00%  Temp: 18.10C'' =
     Inr [\<lparr>timestamp = t, temperature = round_double (181 / 10), humidity = Fin 59\<rparr>]"
  unfolding parseCSV_lines lines_sample
  by (simp add: line_reading_sample [of Date_parse t, OF assms])

lemma engine_sample:
  "engine_Date_parse tza other ''2026-02-08 12:00:21'' = Some (1770552021000 - tza)"
proof -
  have f: "number_at ''2026-02-08 12:00:21'' 0 4 = 2026"
    "number_at ''2026-02-08 12:00:21'' 5 2 = 2"
    "number_at ''2026-02-08 12:00:21'' 8 2 = 8"
    "number_at ''2026-02-08 12:00:21'' 11 2 = 12"
    "number_at ''2026-02-08 12:00:21'' 14 2 = 0"
    "number_at ''2026-02-08 12:00:21'' 17 2 = 21"
    by (simp_all add: number_at_def digits_value_def digit_value_def)
  have s: "date_time_shape ''2026-02-08 12:00:21''"
    by (simp add: date_time_shape_def is_digit_def)
  have d: "DaysInMonth 2026 2 = 28"
    by (simp add: DaysInMonth_def DaysInYear_def)
  show ?thesis
    unfolding engine_Date_parse_def f Let_def using s d
    by (simp add: sample_time_value)
qed

text \<open>
  C9. The one line \<open>2026-02-08 12:00:21,Humidity: 59.00%  Temp: 18.10C\<close> gives exactly one
  reading, of temperature 18.1 (the double nearest to it) and humidity 59, and the year,
  month and day of the month of its timestamp, as \<open>getFullYear\<close>, \<open>getMonth\<close> and
  \<open>getDate\<close> return them, are 2026, 1 (February: months are numbered from 0) and 8. This
  holds in every time zone of a fixed offset, whatever the engine makes of other texts.
\<close>

theorem parseCSV_scenario_A:
  "parseCSV (engine_Date_parse tza other)
     ''2026-02-08 12:00:21,Humidity: 59.00%  Temp: 18.10C'' =
     Inr [\<lparr>timestamp = 1770552021000 - tza, temperature = round_double (181 / 10),
           humidity = Fin 59\<rparr>] \<and>
   getFullYear (\<lambda>t. tza) (1770552021000 - tza) = 2026 \<and>
   getMonth (\<lambda>t. tza) (1770552021000 - tza) = 1 \<and>
   getDate (\<lambda>t. tza) (1770552021000 - tza) = 8"
  using parseCSV_sample [of "engine_Date_parse tza other" "1770552021000 - tza",
      OF engine_sample]
  by (simp add: getFullYear_def getMonth_def getDate_def LocalTime_def
      sample_year sample_month sample_date)

lemma replace_crlf_id: "CHR 0x0D \<notin> set s \<Longrightarrow> replace_crlf s = s"
  by (induction s rule: replace_crlf.induct) auto

lemma split_lines_single: "CHR 0x0A \<notin> set s \<Longrightarrow> split_lines s = [s]"
  by (induction s) auto

lemma trim_id:
  assumes "s \<noteq> []" "\<not> is_white_space (hd s)" "\<not> is_white_space (last s)"
  shows "trim s = s"
proof -
  from assms(1,2) have "dropWhile is_white_space s = s" by (cases s) simp_all
  moreover from assms(1,3) have "dropWhile is_white_space (rev s) = rev s"
    by (cases "rev s") (simp_all add: last_rev [symmetric] hd_rev)
  ultimately show ?thesis by (simp add: trim_def)
qed

lemma parseCSV_single_line:
  assumes "CHR 0x0D \<notin> set s" "CHR 0x0A \<notin> set s"
    and "s \<noteq> []" "\<not> is_white_space (hd s)" "\<not> is_white_space (last s)"
  shows "parseCSV Date_parse s =
     Inr (case line_reading Date_parse s of None \<Rightarrow> [] | Some r \<Rightarrow> [r])"
proof -
  have "split_lines (trim (replace_crlf s)) = [s]"
    using assms by (simp add: replace_crlf_id trim_id split_lines_single)
  then show ?thesis
    by (simp add: parseCSV_lines split: option.splits)
qed

lemma takeWhile_replicate_append:
  "P x \<Longrightarrow> takeWhile P (replicate n x @ ys) = replicate n x @ takeWhile P ys"
  by (induction n) simp_all

lemma dropWhile_replicate_append:
  "P x \<Longrightarrow> dropWhile P (replicate n x @ ys) = dropWhile P ys"
  by (induction n) simp_all

lemma foldl_digit_zeros:
  "foldl (\<lambda>n c. 10 * n + digit_value c) v (replicate k CHR ''0'') = v * 10 ^ k"
  by (induction k arbitrary: v) (simp_all add: digit_value_def)

lemma digits_value_zeros: "digits_value (ds @ replicate k CHR ''0'') = digits_value ds * 10 ^ k"
  by (simp add: digits_value_def foldl_digit_zeros)

lemma parseFloat_digits:
  assumes "ds \<noteq> []" "\<forall>c \<in> set ds. is_digit c"
  shows "parseFloat ds = round_double (of_nat (digits_value ds))"
proof -
  from assms obtain c r where ds: "ds = c # r" and c: "is_digit c" by (cases ds) auto
  from c have nw: "\<not> is_white_space c" "c \<noteq> CHR ''-''" "c \<noteq> CHR ''+''" "c \<noteq> CHR ''I''"
    using is_num_char_cases [of c] by (simp_all add: is_num_char_def)
  have tw: "takeWhile is_digit ds = ds" "dropWhile is_digit ds = []"
    using assms(2) by simp_all
  have "unsigned_literal ds = Some (of_nat (digits_value ds))"
    using assms(1) by (simp add: unsigned_literal_def tw exponent_part_def pow10_def)
  then show ?thesis
    using nw by (simp add: parseFloat_def ds startsWith_def)
qed

lemma parseFloat_googol3: "parseFloat (''1'' @ replicate 309 CHR ''0'') = PosInf"
proof -
  have "parseFloat (''1'' @ replicate 309 CHR ''0'') =
      round_double (of_nat (digits_value (''1'' @ replicate 309 CHR ''0'')))"
    by (rule parseFloat_digits) (auto simp: is_digit_def)
  also have "digits_value (''1'' @ replicate 309 CHR ''0'') = 10 ^ 309"
    unfolding digits_value_zeros by (simp add: digits_value_def digit_value_def)
  also have "round_double (of_nat (10 ^ 309)) = PosInf"
    by (rule round_double_overflow) simp
  finally show ?thesis .
qed

lemma big_trim:
  "trim (''2026-02-08 12:00:21,Humidity: 59.00%  Temp: 1'' @ replicate 309 CHR ''0'' @ ''C'') =
   ''2026-02-08 12:00:21,Humidity: 59.00%  Temp: 1'' @ replicate 309 CHR ''0'' @ ''C''"
  by (rule trim_id) (simp_all add: is_white_space_def)

lemma big_header:
  "\<not> startsWith (toLowerCase (''2026-02-08 12:00:21,Humidity: 59.00%  Temp: 1'' @
      replicate 309 CHR ''0'' @ ''C'')) ''timestamp''"
  by (simp add: startsWith_def toLowerCase_def to_lower_def)

lemma big_timestamp:
  "timestamp_field (''2026-02-08 12:00:21,Humidity: 59.00%  Temp: 1'' @
      replicate 309 CHR ''0'' @ ''C'') = ''2026-02-08 12:00:21''"
  by (simp add: timestamp_field_def trim_def is_white_space_def)

lemma big_payload:
  "payload_field (''2026-02-08 12:00:21,Humidity: 59.00%  Temp: 1'' @
      replicate 309 CHR ''0'' @ ''C'') =
   ''Humidity: 59.00%  Temp: 1'' @ replicate 309 CHR ''0'' @ ''C''"
proof -
  have "trim (''Humidity: 59.00%  Temp: 1'' @ replicate 309 CHR ''0'' @ ''C'') =
      ''Humidity: 59.00%  Temp: 1'' @ replicate 309 CHR ''0'' @ ''C''"
    by (rule trim_id) (simp_all add: is_white_space_def)
  then show ?thesis by (simp add: payload_field_def)
qed

lemma big_hm:
  "String_match (''Humidity: 59.00%  Temp: 1'' @ replicate 309 CHR ''0'' @ ''C'')
     ''Humidity:'' CHR ''%'' = Some [''Humidity: 59.00%'', ''59.00'']"
  by (simp add: match_here_def canonicalize_def is_white_space_def is_num_char_def is_digit_def)

lemma big_tm:
  "String_match (''Humidity: 59.00%  Temp: 1'' @ replicate 309 CHR ''0'' @ ''C'')
     ''Temp:'' CHR ''C'' =
   Some [''Temp: 1'' @ replicate 309 CHR ''0'' @ ''C'', ''1'' @ replicate 309 CHR ''0'']"
  by (simp add: match_here_def canonicalize_def is_white_space_def is_num_char_def is_digit_def
      takeWhile_replicate_append dropWhile_replicate_append)


lemma big_line_reading:
  "line_reading sample_engine
     (''2026-02-08 12:00:21,Humidity: 59.00%  Temp: 1'' @ replicate 309 CHR ''0'' @ ''C'') =
   Some \<lparr>timestamp = 1770552021000, temperature = PosInf, humidity = Fin 59\<rparr>"
proof -
  have e: "sample_engine ''2026-02-08 12:00:21'' = Some 1770552021000"
    by (simp add: sample_engine_def sample_time_value)
  have c: "CHR '','' \<in> set (''2026-02-08 12:00:21,Humidity: 59.00%  Temp: 1'' @
      replicate 309 CHR ''0'' @ ''C'')" by simp
  have ne: "''2026-02-08 12:00:21,Humidity: 59.00%  Temp: 1'' @
      replicate 309 CHR ''0'' @ ''C'' \<noteq> []" by simp
  have g: "parseFloat (CHR ''1'' # replicate 309 CHR ''0'') = PosInf"
    using parseFloat_googol3 by simp
  show ?thesis
    unfolding line_reading_def big_trim Let_def big_timestamp big_payload e big_hm big_tm
    using big_header c ne
    by (simp add: pf_h number_59 g)
qed

text \<open>
  C6 as the specification has it: a line whose numeric parse is not finite is dropped. The
  guard of the source is \<open>isNaN\<close>, and a run of digits that stands for 2^1024 or more parses
  to \<open>Infinity\<close>, which is not NaN: the line is kept, with an infinite temperature.
\<close>

theorem parseCSV_infinity_counterexample:
  "parseFloat (''1'' @ replicate 309 CHR ''0'') = PosInf \<and>
   parseCSV sample_engine
     (''2026-02-08 12:00:21,Humidity: 59.00%  Temp: 1'' @ replicate 309 CHR ''0'' @ ''C'') =
   Inr [\<lparr>timestamp = 1770552021000, temperature = PosInf, humidity = Fin 59\<rparr>]"
proof -
  have "parseCSV sample_engine
     (''2026-02-08 12:00:21,Humidity: 59.00%  Temp: 1'' @ replicate 309 CHR ''0'' @ ''C'') =
     Inr (case line_reading sample_engine
       (''2026-02-08 12:00:21,Humidity: 59.00%  Temp: 1'' @ replicate 309 CHR ''0'' @ ''C'')
       of None \<Rightarrow> [] | Some r \<Rightarrow> [r])"
    by (rule parseCSV_single_line) (simp_all add: is_white_space_def)
  then have "parseCSV sample_engine
     (''2026-02-08 12:00:21,Humidity: 59.00%  Temp: 1'' @ replicate 309 CHR ''0'' @ ''C'') =
     Inr [\<lparr>timestamp = 1770552021000, temperature = PosInf, humidity = Fin 59\<rparr>]"
    by (simp only: big_line_reading option.case)
  with parseFloat_googol3 show ?thesis by (rule conjI)
qed

lemma set_replace_crlf: "set (replace_crlf s) \<subseteq> set s"
  by (induction s rule: replace_crlf.induct) auto

lemma parseCSV_blank:
  assumes "\<forall>c \<in> set raw. is_white_space c"
  shows "parseCSV Date_parse raw = Inr []"
proof -
  have "\<forall>c \<in> set (replace_crlf raw). is_white_space c"
    using assms set_replace_crlf [of raw] by blast
  then have "dropWhile is_white_space (replace_crlf raw) = []"
    by (simp only: dropWhile_eq_Nil_conv)
  then have "trim (replace_crlf raw) = []"
    unfolding trim_def by (simp only: rev.simps dropWhile.simps)
  moreover have "line_reading Date_parse [] = None"
    by (simp add: line_reading_def trim_def)
  ultimately show ?thesis
    by (simp add: parseCSV_lines)
qed

text \<open>
  C6, amended: parsing never raises. For every input text \<open>parseCSV\<close> returns a list of
  readings, the empty one for a text of white space only: the readings of its lines, in
  order, where a line gives no reading when it has no comma, when its timestamp does not
  parse, when the humidity or the temperature pattern does not match, or when a number
  parses to NaN. Such a line is passed over and no exception is raised.
\<close>

theorem parseCSV_never_raises:
  "(\<exists>readings. parseCSV Date_parse raw = Inr readings) \<and>
   parseCSV Date_parse raw =
     Inr (List.map_filter (line_reading Date_parse) (split_lines (trim (replace_crlf raw)))) \<and>
   ((\<forall>c \<in> set raw. is_white_space c) \<longrightarrow> parseCSV Date_parse raw = Inr []) \<and>
   (\<forall>l. CHR '','' \<notin> set (trim l) \<longrightarrow> line_reading Date_parse l = None) \<and>
   (\<forall>l. Date_parse (timestamp_field (trim l)) = None \<longrightarrow> line_reading Date_parse l = None) \<and>
   (\<forall>l. String_match (payload_field (trim l)) ''Humidity:'' CHR ''%'' = None \<longrightarrow>
        line_reading Date_parse l = None) \<and>
   (\<forall>l. String_match (payload_field (trim l)) ''Temp:'' CHR ''C'' = None \<longrightarrow>
        line_reading Date_parse l = None) \<and>
   (\<forall>l hm. String_match (payload_field (trim l)) ''Humidity:'' CHR ''%'' = Some hm \<longrightarrow>
        isNaN (parseFloat (hm ! 1)) \<longrightarrow> line_reading Date_parse l = None) \<and>
   (\<forall>l tm. String_match (payload_field (trim l)) ''Temp:'' CHR ''C'' = Some tm \<longrightarrow>
        isNaN (parseFloat (tm ! 1)) \<longrightarrow> line_reading Date_parse l = None)"
proof (intro conjI allI impI)
  show "\<exists>readings. parseCSV Date_parse raw = Inr readings"
    by (simp add: parseCSV_lines)
  show "parseCSV Date_parse raw =
     Inr (List.map_filter (line_reading Date_parse) (split_lines (trim (replace_crlf raw))))"
    by (rule parseCSV_lines)
next
  assume "\<forall>c \<in> set raw. is_white_space c"
  then show "parseCSV Date_parse raw = Inr []" by (rule parseCSV_blank)
next
  fix l assume "CHR '','' \<notin> set (trim l)"
  then show "line_reading Date_parse l = None" by (simp add: line_reading_def Let_def)
next
  fix l assume "Date_parse (timestamp_field (trim l)) = None"
  then show "line_reading Date_parse l = None" by (simp add: line_reading_def Let_def)
next
  fix l assume "String_match (payload_field (trim l)) ''Humidity:'' CHR ''%'' = None"
  then show "line_reading Date_parse l = None"
    by (simp add: line_reading_def Let_def split: option.splits)
next
  fix l assume "String_match (payload_field (trim l)) ''Temp:'' CHR ''C'' = None"
  then show "line_reading Date_parse l = None"
    by (simp add: line_reading_def Let_def split: option.splits)
next
  fix l hm assume "String_match (payload_field (trim l)) ''Humidity:'' CHR ''%'' = Some hm"
    and "isNaN (parseFloat (hm ! 1))"
  then show "line_reading Date_parse l = None"
    by (simp add: line_reading_def Let_def isNaN_def split: option.splits)
next
  fix l tm assume "String_match (payload_field (trim l)) ''Temp:'' CHR ''C'' = Some tm"
    and "isNaN (parseFloat (tm ! 1))"
  then show "line_reading Date_parse l = None"
    by (simp add: line_reading_def Let_def isNaN_def split: option.splits)
qed

theorem parseCSV_never_raises_witness:
  "parseCSV sample_engine
     (''garbage line with no comma'' @ [CHR 0x0A] @
      ''2026-02-08 12:00:21,Humidity: 59.00%  Temp: 18.10C'' @ [CHR 0x0D, CHR 0x0A] @
      ''not-a-date,Humidity: 59.00%  Temp: 18.10C'' @ [CHR 0x0A] @
      ''2026-02-08 12:00:21,incomplete data here'' @ [CHR 0x0A] @
      ''2026-02-08 12:00:21,Humidity: ..%  Temp: 18.10C'' @ [CHR 0x0A]) =
     Inr [\<lparr>timestamp = 1770552021000, temperature = round_double (181 / 10),
           humidity = Fin 59\<rparr>] \<and>
   list_all is_white_space [CHR 0x20, CHR 0x09, CHR 0x0D, CHR 0x0A] \<and>
   parseCSV sample_engine [CHR 0x20, CHR 0x09, CHR 0x0D, CHR 0x0A] = Inr [] \<and>
   CHR '','' \<notin> set (trim ''garbage line with no comma'') \<and>
   line_reading sample_engine ''garbage line with no comma'' = None \<and>
   sample_engine (timestamp_field (trim ''not-a-date,Humidity: 59.00%  Temp: 18.10C'')) = None \<and>
   line_reading sample_engine ''not-a-date,Humidity: 59.00%  Temp: 18.10C'' = None \<and>
   String_match (payload_field (trim ''2026-02-08 12:00:21,incomplete data here''))
     ''Humidity:'' CHR ''%'' = None \<and>
   String_match (payload_field (trim ''2026-02-08 12:00:21,incomplete data here''))
     ''Temp:'' CHR ''C'' = None \<and>
   line_reading sample_engine ''2026-02-08 12:00:21,incomplete data here'' = None \<and>
   String_match (payload_field (trim ''2026-02-08 12:00:21,Humidity: ..%  Temp: 18.10C''))
     ''Humidity:'' CHR ''%'' = Some [''Humidity: ..%'', ''..''] \<and>
   isNaN (parseFloat ([''Humidity: ..%'', ''..''] ! 1)) \<and>
   line_reading sample_engine ''2026-02-08 12:00:21,Humidity: ..%  Temp: 18.10C'' = None"
proof -
  let ?raw = "''garbage line with no comma'' @ [CHR 0x0A] @
      ''2026-02-08 12:00:21,Humidity: 59.00%  Temp: 18.10C'' @ [CHR 0x0D, CHR 0x0A] @
      ''not-a-date,Humidity: 59.00%  Temp: 18.10C'' @ [CHR 0x0A] @
      ''2026-02-08 12:00:21,incomplete data here'' @ [CHR 0x0A] @
      ''2026-02-08 12:00:21,Humidity: ..%  Temp: 18.10C'' @ [CHR 0x0A]"
  note T = parseCSV_never_raises [of sample_engine ?raw]
  note B = parseCSV_never_raises [of sample_engine "[CHR 0x20, CHR 0x09, CHR 0x0D, CHR 0x0A]"]
  have ws: "list_all is_white_space [CHR 0x20, CHR 0x09, CHR 0x0D, CHR 0x0A]"
    by (simp add: is_white_space_def)
  then have "\<forall>c \<in> set [CHR 0x20, CHR 0x09, CHR 0x0D, CHR 0x0A]. is_white_space c"
    by (simp only: list_all_iff)
  with B have blank: "parseCSV sample_engine [CHR 0x20, CHR 0x09, CHR 0x0D, CHR 0x0A] = Inr []"
    by blast
  have c1: "CHR '','' \<notin> set (trim ''garbage line with no comma'')"
    by (simp add: trim_def is_white_space_def)
  with T have l1: "line_reading sample_engine ''garbage line with no comma'' = None"
    by blast
  have c3: "sample_engine (timestamp_field (trim ''not-a-date,Humidity: 59.00%  Temp: 18.10C'')) = None"
    by (simp add: sample_engine_def timestamp_field_def trim_def is_white_space_def)
  with T have l3: "line_reading sample_engine ''not-a-date,Humidity: 59.00%  Temp: 18.10C'' = None"
    by blast
  have p4: "payload_field (trim ''2026-02-08 12:00:21,incomplete data here'') =
      ''incomplete data here''"
    by (simp add: payload_field_def trim_def is_white_space_def)
  have c4: "String_match (payload_field (trim ''2026-02-08 12:00:21,incomplete data here''))
     ''Humidity:'' CHR ''%'' = None"
    unfolding p4
    by (simp add: match_here_def canonicalize_def is_white_space_def is_num_char_def is_digit_def)
  have c4': "String_match (payload_field (trim ''2026-02-08 12:00:21,incomplete data here''))
     ''Temp:'' CHR ''C'' = None"
    unfolding p4
    by (simp add: match_here_def canonicalize_def is_white_space_def is_num_char_def is_digit_def)
  from T c4 have l4: "line_reading sample_engine ''2026-02-08 12:00:21,incomplete data here'' = None"
    by blast
  have p5: "payload_field (trim ''2026-02-08 12:00:21,Humidity: ..%  Temp: 18.10C'') =
      ''Humidity: ..%  Temp: 18.10C''"
    by (simp add: payload_field_def trim_def is_white_space_def)
  have c5: "String_match (payload_field (trim ''2026-02-08 12:00:21,Humidity: ..%  Temp: 18.10C''))
     ''Humidity:'' CHR ''%'' = Some [''Humidity: ..%'', ''..'']"
    unfolding p5
    by (simp add: match_here_def canonicalize_def is_white_space_def is_num_char_def is_digit_def)
  have n5: "isNaN (parseFloat ([''Humidity: ..%'', ''..''] ! 1))"
    by (simp add: isNaN_def parseFloat_def unsigned_literal_def startsWith_def
        is_white_space_def is_digit_def)
  from T c5 n5 have l5: "line_reading sample_engine
      ''2026-02-08 12:00:21,Humidity: ..%  Temp: 18.10C'' = None"
    by blast
  have e: "sample_engine ''2026-02-08 12:00:21'' = Some 1770552021000"
    by (simp add: sample_engine_def sample_time_value)
  note l2 = line_reading_sample [of sample_engine 1770552021000, OF e]
  have lines: "split_lines (trim (replace_crlf ?raw)) =
      [''garbage line with no comma'',
       ''2026-02-08 12:00:21,Humidity: 59.00%  Temp: 18.10C'',
       ''not-a-date,Humidity: 59.00%  Temp: 18.10C'',
       ''2026-02-08 12:00:21,incomplete data here'',
       ''2026-02-08 12:00:21,Humidity: ..%  Temp: 18.10C'']"
    by (simp add: trim_def is_white_space_def)
  from T have "parseCSV sample_engine ?raw =
      Inr (List.map_filter (line_reading sample_engine) (split_lines (trim (replace_crlf ?raw))))"
    by blast
  then have parsed: "parseCSV sample_engine ?raw =
      Inr [\<lparr>timestamp = 1770552021000, temperature = round_double (181 / 10),
            humidity = Fin 59\<rparr>]"
    unfolding lines by (simp only: List.map_filter_simps l1 l2 l3 l4 l5 option.case)
  from parsed ws blank c1 l1 c3 l3 c4 c4' l4 c5 n5 l5 show ?thesis by blast
qed

lemma parseCSV_readings_nonneg:
  assumes "parseCSV Date_parse raw = Inr readings" "r \<in> set readings"
  shows "num_le (Fin 0) (temperature r) \<and> num_le (Fin 0) (humidity r)"
proof -
  from assms have "r \<in> set (List.map_filter (line_reading Date_parse)
      (split_lines (trim (replace_crlf raw))))"
    by (simp add: parseCSV_lines)
  then obtain l where "line_reading Date_parse l = Some r"
    by (auto simp: List.map_filter_def)
  then show ?thesis by (rule line_reading_nonneg)
qed

lemma is_num_char_iff: "is_num_char c \<longleftrightarrow> is_digit c \<or> c = CHR ''.''"
  by (simp add: is_num_char_def)

text \<open>
  C10. Every reading that \<open>parseCSV\<close> returns, for every input text, has a temperature and a
  humidity of at least 0. The group of either pattern is a non-empty run of digits and dots,
  which \<open>parseFloat\<close> reads as a number that is not negative, or as NaN; a value with a
  minus sign fails the pattern, and the line gives no reading.
\<close>

theorem parseCSV_nonnegative:
  "(\<exists>readings. parseCSV Date_parse raw = Inr readings \<and>
      (\<forall>r \<in> set readings. num_le (Fin 0) (temperature r) \<and> num_le (Fin 0) (humidity r))) \<and>
   (\<forall>s label t m. String_match s label t = Some m \<longrightarrow>
      (\<exists>w g. m = [w, g] \<and> g \<noteq> [] \<and> (\<forall>c \<in> set g. is_digit c \<or> c = CHR ''.''))) \<and>
   parseCSV Date_parse ''2026-02-08 12:00:21,Humidity: -59.00%  Temp: 18.10C'' = Inr [] \<and>
   parseCSV Date_parse ''2026-02-08 12:00:21,Humidity: 59.00%  Temp: -18.10C'' = Inr []"
proof (intro conjI allI impI)
  obtain readings where r: "parseCSV Date_parse raw = Inr readings"
    by (simp add: parseCSV_lines)
  then have "\<forall>r \<in> set readings. num_le (Fin 0) (temperature r) \<and> num_le (Fin 0) (humidity r)"
    using parseCSV_readings_nonneg by blast
  with r show "\<exists>readings. parseCSV Date_parse raw = Inr readings \<and>
      (\<forall>r \<in> set readings. num_le (Fin 0) (temperature r) \<and> num_le (Fin 0) (humidity r))"
    by blast
next
  fix s label t m assume "String_match s label t = Some m"
  from String_match_group [OF this]
  show "\<exists>w g. m = [w, g] \<and> g \<noteq> [] \<and> (\<forall>c \<in> set g. is_digit c \<or> c = CHR ''.'')"
    by (simp only: is_num_char_iff)
next
  have h: "String_match ''Humidity: -59.00%  Temp: 18.10C'' ''Humidity:'' CHR ''%'' = None"
    by (simp add: match_here_def canonicalize_def is_white_space_def is_num_char_def is_digit_def)
  have p: "payload_field ''2026-02-08 12:00:21,Humidity: -59.00%  Temp: 18.10C'' =
      ''Humidity: -59.00%  Temp: 18.10C''"
    by (simp add: payload_field_def trim_def is_white_space_def)
  have t: "trim ''2026-02-08 12:00:21,Humidity: -59.00%  Temp: 18.10C'' =
      ''2026-02-08 12:00:21,Humidity: -59.00%  Temp: 18.10C''"
    by (rule trim_id) (simp_all add: is_white_space_def)
  have "line_reading Date_parse ''2026-02-08 12:00:21,Humidity: -59.00%  Temp: 18.10C'' = None"
    unfolding line_reading_def t Let_def p h by (simp split: option.splits)
  moreover have "parseCSV Date_parse ''2026-02-08 12:00:21,Humidity: -59.00%  Temp: 18.10C'' =
     Inr (case line_reading Date_parse ''2026-02-08 12:00:21,Humidity: -59.00%  Temp: 18.10C''
       of None \<Rightarrow> [] | Some r \<Rightarrow> [r])"
    by (rule parseCSV_single_line) (simp_all add: is_white_space_def)
  ultimately show "parseCSV Date_parse ''2026-02-08 12:00:21,Humidity: -59.00%  Temp: 18.10C'' = Inr []"
    by simp
next
  have h: "String_match ''Humidity: 59.00%  Temp: -18.10C'' ''Temp:'' CHR ''C'' = None"
    by (simp add: match_here_def canonicalize_def is_white_space_def is_num_char_def is_digit_def)
  have p: "payload_field ''2026-02-08 12:00:21,Humidity: 59.00%  Temp: -18.10C'' =
      ''Humidity: 59.00%  Temp: -18.10C''"
    by (simp add: payload_field_def trim_def is_white_space_def)
  have t: "trim ''2026-02-08 12:00:21,Humidity: 59.00%  Temp: -18.10C'' =
      ''2026-02-08 12:00:21,Humidity: 59.00%  Temp: -18.10C''"
    by (rule trim_id) (simp_all add: is_white_space_def)
  have "line_reading Date_parse ''2026-02-08 12:00:21,Humidity: 59.00%  Temp: -18.10C'' = None"
    unfolding line_reading_def t Let_def p h by (simp split: option.splits)
  moreover have "parseCSV Date_parse ''2026-02-08 12:00:21,Humidity: 59.00%  Temp: -18.10C'' =
     Inr (case line_reading Date_parse ''2026-02-08 12:00:21,Humidity: 59.00%  Temp: -18.10C''
       of None \<Rightarrow> [] | Some r \<Rightarrow> [r])"
    by (rule parseCSV_single_line) (simp_all add: is_white_space_def)
  ultimately show "parseCSV Date_parse ''2026-02-08 12:00:21,Humidity: 59.00%  Temp: -18.10C'' = Inr []"
    by simp
qed

theorem parseCSV_nonnegative_witness:
  "parseCSV sample_engine ''2026-02-08 12:00:21,Humidity: 59.00%  Temp: 18.10C'' =
     Inr [\<lparr>timestamp = 1770552021000, temperature = round_double (181 / 10),
           humidity = Fin 59\<rparr>] \<and>
   num_le (Fin 0) (round_double (181 / 10)) \<and> num_le (Fin 0) (Fin 59)"
proof -
  have e: "sample_engine ''2026-02-08 12:00:21'' = Some 1770552021000"
    by (simp add: sample_engine_def sample_time_value)
  note p = parseCSV_sample [of sample_engine 1770552021000, OF e]
  from parseCSV_nonnegative [of sample_engine
      "''2026-02-08 12:00:21,Humidity: 59.00%  Temp: 18.10C''"]
  obtain readings where
    "parseCSV sample_engine ''2026-02-08 12:00:21,Humidity: 59.00%  Temp: 18.10C'' = Inr readings"
    "\<forall>r \<in> set readings. num_le (Fin 0) (temperature r) \<and> num_le (Fin 0) (humidity r)"
    by blast
  with p have "num_le (Fin 0) (round_double (181 / 10)) \<and> num_le (Fin 0) (Fin 59)"
    by simp
  with p show ?thesis by blast
qed

end
